theory Spec2Isabelle
  imports Main "HOL-Library.Char_ord" "HOL-Library.List_Lexorder"
begin

section \<open>Strings\<close>

text \<open>
  \<^verbatim>\<open>std::string\<close> is a byte string: \<open>string\<close> (a \<open>char list\<close>).
  \<^verbatim>\<open>startsWith\<close> (main.cpp, utility functions) compares lengths and then the prefix range.
\<close>

definition startsWith :: "string \<Rightarrow> string \<Rightarrow> bool" where
  "startsWith str pre = (length str \<ge> length pre \<and> take (length pre) str = pre)"

text \<open>
  \<^verbatim>\<open>s.find(pat)\<close>: the first offset at which \<open>pat\<close> occurs in \<open>s\<close>;
  \<open>None\<close> stands for \<^verbatim>\<open>std::string::npos\<close>.
\<close>

fun str_find :: "string \<Rightarrow> string \<Rightarrow> nat option" where
  "str_find [] pat = (if pat = [] then Some 0 else None)"
| "str_find (c # cs) pat =
     (if startsWith (c # cs) pat then Some 0 else map_option Suc (str_find cs pat))"

text \<open>\<^verbatim>\<open>s.find(pat) != std::string::npos\<close>\<close>

definition found :: "string \<Rightarrow> string \<Rightarrow> bool" where
  "found s pat = (str_find s pat \<noteq> None)"

text \<open>
  \<^verbatim>\<open>std::to_string\<close> of a non-negative \<^verbatim>\<open>int\<close> (the value of \<^verbatim>\<open>rand()\<close>):
  its decimal digits.
\<close>

definition digit :: "nat \<Rightarrow> char" where
  "digit d = ''0123456789'' ! d"

function to_string :: "nat \<Rightarrow> string" where
  "to_string n = (if n < 10 then [digit n] else to_string (n div 10) @ [digit (n mod 10)])"
  by pat_completeness auto
termination
  by (relation "measure id") auto

section \<open>The regular expressions of the source\<close>

text \<open>
  The three \<^verbatim>\<open>std::regex\<close> patterns of the source (ECMAScript grammar) use literal
  characters, character classes, greedy and lazy repetition of a class, an optional group, one
  capture group and a leading \<^verbatim>\<open>^\<close>. They are written as terms of \<open>rx\<close> and run by
  a backtracking matcher that explores the alternatives in the priority order of the
  ECMAScript grammar: a greedy quantifier tries the longer match first, a lazy one the
  shorter one first, and the first alternative that lets the rest of the pattern match wins.
\<close>

datatype rx =
    Atom "char \<Rightarrow> bool"    \<comment> \<open>one character of a class\<close>
  | Bol                    \<comment> \<open>\<^verbatim>\<open>^\<close>\<close>
  | Seq rx rx
  | Opt rx                 \<comment> \<open>\<^verbatim>\<open>r?\<close>, greedy\<close>
  | StarG "char \<Rightarrow> bool"   \<comment> \<open>\<^verbatim>\<open>[c]*\<close>, greedy\<close>
  | StarL "char \<Rightarrow> bool"   \<comment> \<open>\<^verbatim>\<open>[c]*?\<close>, lazy\<close>
  | Grp rx                 \<comment> \<open>capture group 1\<close>

text \<open>
  The matcher is written with a continuation \<open>k\<close> for the rest of the pattern: it receives
  the capture and the input left. \<open>None\<close> is a failed attempt, which makes the caller
  backtrack to its next alternative.
\<close>

fun starG :: "(char \<Rightarrow> bool) \<Rightarrow> string \<Rightarrow> (string \<Rightarrow> 'r option) \<Rightarrow> 'r option" where
  "starG p [] k = k []"
| "starG p (c # cs) k =
     (if p c then (case starG p cs k of Some r \<Rightarrow> Some r | None \<Rightarrow> k (c # cs))
      else k (c # cs))"

fun starL :: "(char \<Rightarrow> bool) \<Rightarrow> string \<Rightarrow> (string \<Rightarrow> 'r option) \<Rightarrow> 'r option" where
  "starL p [] k = k []"
| "starL p (c # cs) k =
     (case k (c # cs) of Some r \<Rightarrow> Some r
      | None \<Rightarrow> if p c then starL p cs k else None)"

text \<open>
  \<open>len\<close> is the length of the whole subject string: \<^verbatim>\<open>^\<close> matches only where all
  of it is still ahead (no \<^verbatim>\<open>multiline\<close> flag is set in the source).
\<close>

fun rmatch :: "nat \<Rightarrow> rx \<Rightarrow> string option \<Rightarrow> string
               \<Rightarrow> (string option \<Rightarrow> string \<Rightarrow> 'r option) \<Rightarrow> 'r option" where
  "rmatch len (Atom p) g s k =
     (case s of [] \<Rightarrow> None | c # cs \<Rightarrow> if p c then k g cs else None)"
| "rmatch len Bol g s k = (if length s = len then k g s else None)"
| "rmatch len (Seq a b) g s k = rmatch len a g s (\<lambda>g' s'. rmatch len b g' s' k)"
| "rmatch len (Opt a) g s k =
     (case rmatch len a g s k of Some r \<Rightarrow> Some r | None \<Rightarrow> k g s)"
| "rmatch len (StarG p) g s k = starG p s (k g)"
| "rmatch len (StarL p) g s k = starL p s (k g)"
| "rmatch len (Grp a) g s k =
     rmatch len a g s (\<lambda>g' s'. k (Some (take (length s - length s') s)) s')"

text \<open>
  One attempt at a fixed offset: the length of the match and capture group 1.
  With \<open>nonnull\<close> the empty match is refused (\<^verbatim>\<open>match_not_null\<close>).
\<close>

definition match_at :: "bool \<Rightarrow> nat \<Rightarrow> rx \<Rightarrow> string \<Rightarrow> (nat \<times> string option) option" where
  "match_at nonnull len r s =
     rmatch len r None s
       (\<lambda>g s'. if nonnull \<and> length s' = length s then None
                else Some (length s - length s', g))"

text \<open>
  \<^verbatim>\<open>std::regex_search\<close>: the attempt at the leftmost offset that matches.
  The result is the offset, the length of the match and capture group 1.
\<close>

fun search_from :: "nat \<Rightarrow> rx \<Rightarrow> string \<Rightarrow> (nat \<times> nat \<times> string option) option" where
  "search_from len r [] =
     (case match_at False len r [] of None \<Rightarrow> None | Some (n, g) \<Rightarrow> Some (0, n, g))"
| "search_from len r (c # cs) =
     (case match_at False len r (c # cs) of
        Some (n, g) \<Rightarrow> Some (0, n, g)
      | None \<Rightarrow> (case search_from len r cs of
                   None \<Rightarrow> None
                 | Some (p, n, g) \<Rightarrow> Some (Suc p, n, g)))"

definition regex_search :: "rx \<Rightarrow> string \<Rightarrow> (nat \<times> nat \<times> string option) option" where
  "regex_search r s = search_from (length s) r s"

text \<open>\<^verbatim>\<open>m[1].str()\<close>: the text of group 1, empty when the group took no part.\<close>

definition group_str :: "string option \<Rightarrow> string" where
  "group_str g = (case g of None \<Rightarrow> [] | Some v \<Rightarrow> v)"

subsection \<open>Character classes\<close>

text \<open>
  \<^verbatim>\<open>std::regex::icase\<close> compares characters after \<^verbatim>\<open>tolower\<close> (the "C" locale:
  only \<open>A\<close> to \<open>Z\<close> change). \<^verbatim>\<open>\s\<close> is the \<^verbatim>\<open>space\<close> class of that locale,
  and \<^verbatim>\<open>.\<close> is every character but the line ends \<^verbatim>\<open>\n\<close> and \<^verbatim>\<open>\r\<close>.
\<close>

definition to_lower :: "char \<Rightarrow> char" where
  "to_lower c =
     (case map_of (zip ''ABCDEFGHIJKLMNOPQRSTUVWXYZ'' ''abcdefghijklmnopqrstuvwxyz'') c of
        Some l \<Rightarrow> l
      | None \<Rightarrow> c)"

definition isspace :: "char \<Rightarrow> bool" where
  "isspace c = (c \<in> set [CHR '' '', CHR 0x09, CHR 0x0A, CHR 0x0B, CHR 0x0C, CHR 0x0D])"

definition anychar :: "char \<Rightarrow> bool" where
  "anychar c = (c \<noteq> CHR 0x0A \<and> c \<noteq> CHR 0x0D)"

definition lit :: "char \<Rightarrow> rx" where
  "lit c = Atom (\<lambda>x. x = c)"

definition liti :: "char \<Rightarrow> rx" where
  "liti c = Atom (\<lambda>x. to_lower x = to_lower c)"

text \<open>A literal string followed by \<open>r\<close>.\<close>

definition lits :: "string \<Rightarrow> rx \<Rightarrow> rx" where
  "lits cs r = foldr (\<lambda>c. Seq (lit c)) cs r"

definition litis :: "string \<Rightarrow> rx \<Rightarrow> rx" where
  "litis cs r = foldr (\<lambda>c. Seq (liti c)) cs r"

text \<open>\<^verbatim>\<open>[c]+\<close>, greedy\<close>

definition plusG :: "(char \<Rightarrow> bool) \<Rightarrow> rx" where
  "plusG p = Seq (Atom p) (StarG p)"

definition dquote :: char where
  "dquote = CHR 0x22"

section \<open>URL resolver\<close>

text \<open>\<^verbatim>\<open>std::regex domain_regex(R"(^https?://[^/]+)")\<close>\<close>

definition domain_body :: rx where
  "domain_body =
     lits ''http'' (Seq (Opt (lit CHR ''s'')) (lits ''://'' (plusG (\<lambda>c. c \<noteq> CHR ''/''))))"

definition domain_regex :: rx where
  "domain_regex = Seq Bol domain_body"

text \<open>
  \<^verbatim>\<open>combineUrl\<close> (main.cpp). \<^verbatim>\<open>match.str(0)\<close> is the matched part of \<open>b\<close>.
\<close>

definition combineUrl :: "string \<Rightarrow> string \<Rightarrow> string" where
  "combineUrl base relative =
     (if relative = [] then base
      else if startsWith relative ''http://'' \<or> startsWith relative ''https://'' then relative
      else
        let b = (if base \<noteq> [] \<and> last base = CHR ''/'' then butlast base else base) in
        if relative \<noteq> [] \<and> hd relative = CHR ''/'' then
          (case regex_search domain_regex b of
             Some (p, n, g) \<Rightarrow> take n (drop p b) @ relative
           | None \<Rightarrow> b @ relative)
        else b @ ''/'' @ relative)"

section \<open>Link extractor\<close>

text \<open>
  \<^verbatim>\<open>std::sregex_iterator\<close>: the successive matches, each search starting where the
  previous match ended. After an empty match the iterator first looks for a non-empty match
  at the same place and otherwise moves one character on (\<open>after_empty\<close>).
  Each element is the matched text and capture group 1.
\<close>

lemma starG_cont:
  "starG p s k = Some x \<Longrightarrow> \<exists>s'. length s' \<le> length s \<and> k s' = Some x"
proof (induction s)
  case Nil
  then show ?case by auto
next
  case (Cons c cs)
  show ?case
  proof (cases "p c \<and> starG p cs k = Some x")
    case True
    with Cons.IH obtain s' where "length s' \<le> length cs" "k s' = Some x" by blast
    then show ?thesis by (intro exI [of _ s']) simp
  next
    case False
    with Cons.prems have "k (c # cs) = Some x"
      by (auto split: if_splits option.splits)
    then show ?thesis by (intro exI [of _ "c # cs"]) simp
  qed
qed

lemma starL_cont:
  "starL p s k = Some x \<Longrightarrow> \<exists>s'. length s' \<le> length s \<and> k s' = Some x"
proof (induction s)
  case Nil
  then show ?case by auto
next
  case (Cons c cs)
  show ?case
  proof (cases "k (c # cs) = Some x")
    case True
    then show ?thesis by (intro exI [of _ "c # cs"]) simp
  next
    case False
    with Cons.prems have "starL p cs k = Some x"
      by (auto split: if_splits option.splits)
    with Cons.IH obtain s' where "length s' \<le> length cs" "k s' = Some x" by blast
    then show ?thesis by (intro exI [of _ s']) simp
  qed
qed

lemma rmatch_cont:
  "rmatch len r g s k = Some x \<Longrightarrow> \<exists>g' s'. length s' \<le> length s \<and> k g' s' = Some x"
proof (induction r arbitrary: g s k)
  case (Atom p)
  then show ?case by (auto split: list.splits if_splits intro: le_SucI)
next
  case Bol
  then show ?case by (auto split: if_splits)
next
  case (Seq a b)
  from Seq.prems obtain g1 s1 where
    a: "length s1 \<le> length s" and b: "rmatch len b g1 s1 k = Some x"
    using Seq.IH(1) by fastforce
  from Seq.IH(2) [OF b] a show ?case by (meson le_trans)
next
  case (Opt a)
  then show ?case by (fastforce split: option.splits)
next
  case (StarG p)
  then show ?case using starG_cont by fastforce
next
  case (StarL p)
  then show ?case using starL_cont by fastforce
next
  case (Grp a)
  from Grp.prems Grp.IH show ?case by fastforce
qed

lemma match_at_cont:
  assumes "match_at nonnull len r s = Some (n, g)"
  shows "\<exists>s'::string. length s' \<le> length s \<and> n = length s - length s' \<and>
           \<not> (nonnull \<and> length s' = length s)"
proof -
  have "\<exists>g' (s'::string). length s' \<le> length s \<and>
          (if nonnull \<and> length s' = length s then None
           else Some (length s - length s', g')) = Some (n, g)"
    using rmatch_cont [OF assms [unfolded match_at_def]] .
  then show ?thesis by (auto split: if_splits)
qed

lemma match_at_le: "match_at nonnull len r s = Some (n, g) \<Longrightarrow> n \<le> length s"
  by (drule match_at_cont) auto

lemma match_at_nonnull_pos: "match_at True len r s = Some (n, g) \<Longrightarrow> 0 < n"
  by (drule match_at_cont) auto

lemma search_from_len:
  "search_from len r s = Some (p, n, g) \<Longrightarrow> p + n \<le> length s"
  by (induction s arbitrary: p)
     (auto split: option.splits dest: match_at_le)

function regex_iter :: "nat \<Rightarrow> rx \<Rightarrow> bool \<Rightarrow> string \<Rightarrow> (string \<times> string option) list" where
  "regex_iter len r after_empty s =
     (if after_empty then
        (case s of
           [] \<Rightarrow> []
         | c # cs \<Rightarrow>
             (case match_at True len r s of
                Some (n, g) \<Rightarrow> (take n s, g) # regex_iter len r False (drop n s)
              | None \<Rightarrow> regex_iter len r False cs))
      else
        (case search_from len r s of
           None \<Rightarrow> []
         | Some (p, n, g) \<Rightarrow>
             (take n (drop p s), g) # regex_iter len r (n = 0) (drop (p + n) s)))"
  by pat_completeness auto
termination
  apply (relation "measure (\<lambda>(len, r, e, s). 2 * length s + (if e then 0 else 1))")
     apply simp
    apply simp
   apply (clarsimp, drule match_at_nonnull_pos, simp)
  apply (clarsimp, drule search_from_len, auto)
  done

text \<open>
  \<^verbatim>\<open>static const std::regex href_regex(R"###(<a\s+(?:[^>]*?\s+)?href="([^"]*)")###",
  std::regex::icase)\<close>
\<close>

definition href_regex :: rx where
  "href_regex =
     litis ''<a'' (Seq (plusG isspace)
       (Seq (Opt (Seq (StarL (\<lambda>c. c \<noteq> CHR ''>'')) (plusG isspace)))
         (litis ''href='' (Seq (liti dquote)
           (Seq (Grp (StarG (\<lambda>c. c \<noteq> dquote))) (liti dquote))))))"

text \<open>\<^verbatim>\<open>extractLinks\<close> (main.cpp): group 1 of every match, in the iterator's order.\<close>

definition extractLinks :: "string \<Rightarrow> string list" where
  "extractLinks html = map (\<lambda>(m, g). group_str g) (regex_iter (length html) href_regex False html)"

section \<open>Process state and environment\<close>

text \<open>
  The world outside the program: what the server answers, what \<^verbatim>\<open>rand()\<close> returns and
  the two depth settings of \<^verbatim>\<open>config\<close>. An answer may depend on the requests issued
  before it. \<open>net\<close> is the body \<^verbatim>\<open>httpGet\<close> returns (empty on any failure);
  \<open>status\<close> is the text read from the second \<^verbatim>\<open>curl\<close>, which prints the HTTP status
  code (\<open>None\<close> when \<^verbatim>\<open>popen\<close> fails). The depth settings are
  \<^verbatim>\<open>std::stoi(config[...])\<close>, \<open>None\<close> when \<^verbatim>\<open>stoi\<close> throws.
\<close>

datatype request = Body string | Code string

record env =
  net :: "request list \<Rightarrow> string \<Rightarrow> string"
  status :: "request list \<Rightarrow> string \<Rightarrow> string option"
  rands :: "nat \<Rightarrow> nat"
  max_enum_depth :: "int option"
  max_list_depth :: "int option"

text \<open>The five signals of a probe, named as the local variables of the source.\<close>

record signals =
  not404 :: bool
  statusOk :: bool
  looksLikeDir :: bool
  titleOk :: bool
  notRedirect :: bool

text \<open>
  The lines written to \<^verbatim>\<open>std::cout\<close>, without their colour codes; the first argument
  is \<open>depth\<close>, which the source prints as an indentation of \<open>2 * depth\<close> blanks.
\<close>

datatype colour = Gray | Blue | Green | Yellow | Red | Cyan | Pink

datatype event =
    Enumerating nat string        \<comment> \<open>\<^verbatim>\<open>Enumerating: <url>\<close>\<close>
  | NoResponse nat                \<comment> \<open>\<^verbatim>\<open>(No response or empty)\<close>\<close>
  | Ok nat string signals         \<comment> \<open>\<^verbatim>\<open>[ OK ] <dir>  (<signals>)\<close>\<close>
  | DirLine nat string            \<comment> \<open>\<^verbatim>\<open>[<dir>]\<close>\<close>
  | Listing nat string            \<comment> \<open>\<^verbatim>\<open>Listing: <url>\<close>\<close>
  | FetchFailed nat               \<comment> \<open>\<^verbatim>\<open>(Failed to fetch or empty content)\<close>\<close>
  | NoLinks nat                   \<comment> \<open>\<^verbatim>\<open>(No links found)\<close>\<close>
  | NoEntries nat                 \<comment> \<open>\<^verbatim>\<open>(No files or directories found)\<close>\<close>
  | FileLine nat colour string

text \<open>
  The state of the process that the two crawlers touch: the function-local statics
  \<^verbatim>\<open>staticVisited\<close> and \<^verbatim>\<open>notFoundCache\<close> of \<^verbatim>\<open>enumerateDirectories\<close>,
  the number of \<^verbatim>\<open>rand()\<close> calls made, the requests issued and the lines printed.
\<close>

record pstate =
  staticVisited :: "string set"
  notFoundCache :: "string \<rightharpoonup> string"
  randCalls :: nat
  requests :: "request list"
  printed :: "event list"

datatype error = StoiFailed

definition emit :: "event \<Rightarrow> pstate \<Rightarrow> pstate" where
  "emit e st = st\<lparr>printed := printed st @ [e]\<rparr>"

text \<open>\<^verbatim>\<open>httpGet\<close> (main.cpp): one request, its body.\<close>

definition httpGet :: "env \<Rightarrow> string \<Rightarrow> pstate \<Rightarrow> string \<times> pstate" where
  "httpGet E url st = (net E (requests st) url, st\<lparr>requests := requests st @ [Body url]\<rparr>)"

text \<open>\<^verbatim>\<open>if (maxDepth == -1) maxDepth = std::stoi(config[...])\<close>\<close>

definition resolve_depth :: "int option \<Rightarrow> int \<Rightarrow> int option" where
  "resolve_depth cfg maxDepth = (if maxDepth = - 1 then cfg else Some maxDepth)"

section \<open>Baseline signature cache\<close>

text \<open>
  The block of \<^verbatim>\<open>enumerateDirectories\<close> that fills \<^verbatim>\<open>notFoundSig\<close>, run as one
  step under \<^verbatim>\<open>std::unique_lock lock(visMutex)\<close>.
\<close>

definition notFoundSig :: "env \<Rightarrow> string \<Rightarrow> pstate \<Rightarrow> string \<times> pstate" where
  "notFoundSig E baseUrl st =
     (case notFoundCache st baseUrl of
        Some sig \<Rightarrow> (sig, st)
      | None \<Rightarrow>
          let r = rands E (randCalls st);
              st1 = st\<lparr>randCalls := Suc (randCalls st)\<rparr>;
              (fake404, st2) =
                httpGet E (combineUrl baseUrl (''__tcli_fake404__'' @ to_string r @ ''/'')) st1;
              sig = take 512 fake404
          in (sig, st2\<lparr>notFoundCache := (notFoundCache st2)(baseUrl \<mapsto> sig)\<rparr>))"

section \<open>Heuristic classifier\<close>

definition commonDirs :: "string list" where
  "commonDirs =
     [''admin/'', ''private/'', ''secret/'', ''hidden/'', ''config/'', ''backup/'', ''data/'',
      ''uploads/'', ''files/'', ''tmp/'', ''test/'', ''dev/'', ''logs/'', ''bin/'', ''cgi-bin/'',
      ''.git/'', ''.svn/'', ''.env/'', ''.htaccess'', ''.htpasswd'', ''db/'', ''db_backup/'',
      ''old/'', ''new/'', ''staging/'', ''beta/'', ''alpha/'', ''api/'', ''assets/'', ''images/'',
      ''css/'', ''js/'']"

definition dirPatterns :: "string list" where
  "dirPatterns =
     [''Index of'', ''Parent Directory'', ''<title>Index of'', ''Directory listing for'',
      ''To Parent Directory'']"

text \<open>\<^verbatim>\<open>std::regex("<title>(.*?)</title>", std::regex::icase)\<close>\<close>

definition title_regex :: rx where
  "title_regex = litis ''<title>'' (Seq (Grp (StarL anychar)) (litis ''</title'' (liti CHR ''>'')))"

text \<open>
  The signals of a non-empty probe body, as the lambda of \<^verbatim>\<open>enumerateDirectories\<close>
  computes them; \<open>code\<close> is the status text.
\<close>

definition classify :: "string \<Rightarrow> string \<Rightarrow> string \<Rightarrow> string option \<Rightarrow> signals" where
  \<open>classify baseUrl probe sig code =
     \<lparr> not404 = (take 512 probe \<noteq> sig),
       statusOk =
         (case code of
            None \<Rightarrow> False
          | Some c \<Rightarrow> found c ''200'' \<or> found c ''301'' \<or> found c ''302''),
       looksLikeDir = list_ex (found probe) dirPatterns,
       titleOk =
         (let title = (case regex_search title_regex probe of
                         Some (p, n, g) \<Rightarrow> group_str g
                       | None \<Rightarrow> [])
          in title \<noteq> [] \<and> \<not> found title ''404'' \<and> \<not> found title ''Not Found''),
       notRedirect = (\<not> (found probe ''http-equiv="refresh"'' \<and> found probe baseUrl)) \<rparr>\<close>

definition score :: "signals \<Rightarrow> nat" where
  "score sg =
     (if not404 sg then 1 else 0) + (if statusOk sg then 1 else 0) +
     (if looksLikeDir sg then 1 else 0) + (if titleOk sg then 1 else 0) +
     (if notRedirect sg then 1 else 0)"

text \<open>\<^verbatim>\<open>std::set<std::string>::insert\<close>, the set kept as its sorted list of elements.\<close>

definition set_insert :: "string \<Rightarrow> string list \<Rightarrow> string list" where
  "set_insert x xs = (if x \<in> set xs then xs else insort x xs)"

text \<open>
  One probe task (the lambda handed to \<^verbatim>\<open>std::async\<close>) for the candidate \<open>dir\<close>.
  The tasks of one level run concurrently in the source; the model runs them one after the
  other, in the order in which they are launched.
\<close>

definition probeDir :: "env \<Rightarrow> string \<Rightarrow> nat \<Rightarrow> string \<Rightarrow> string
                     \<Rightarrow> pstate \<times> string list \<Rightarrow> pstate \<times> string list" where
  "probeDir E baseUrl depth sig dir acc =
     (let (st, foundDirs) = acc;
          tryUrl = combineUrl baseUrl dir;
          (body, st1) = httpGet E tryUrl st
      in if body = [] then (st1, foundDirs)
         else
           let code = status E (requests st1) tryUrl;
               st2 = (if code = None then st1
                      else st1\<lparr>requests := requests st1 @ [Code tryUrl]\<rparr>);
               sg = classify baseUrl body sig code
           in if score sg \<ge> 2 then (emit (Ok depth dir sg) st2, set_insert dir foundDirs)
              else (st2, foundDirs))"

text \<open>\<^verbatim>\<open>for (const auto& dir : commonDirs) { if (foundDirs.count(dir)) continue; ... }\<close>\<close>

fun probeAll :: "env \<Rightarrow> string \<Rightarrow> nat \<Rightarrow> string \<Rightarrow> string list
                 \<Rightarrow> pstate \<times> string list \<Rightarrow> pstate \<times> string list" where
  "probeAll E baseUrl depth sig [] acc = acc"
| "probeAll E baseUrl depth sig (dir # dirs) acc =
     (if dir \<in> set (snd acc) then probeAll E baseUrl depth sig dirs acc
      else probeAll E baseUrl depth sig dirs (probeDir E baseUrl depth sig dir acc))"

section \<open>Recursive enumerator\<close>

text \<open>The directories among the links: the first loop over \<^verbatim>\<open>links\<close>.\<close>

definition knownDirs :: "string list \<Rightarrow> string list" where
  "knownDirs links =
     foldl (\<lambda>foundDirs link.
              if link \<noteq> ''../'' \<and> link \<noteq> ''./'' \<and> link \<noteq> [] \<and> last link = CHR ''/''
              then set_insert link foundDirs else foundDirs) [] links"

text \<open>
  One level of \<^verbatim>\<open>enumerateDirectories\<close>, from the line after the visited-set block to
  the barrier \<^verbatim>\<open>for (auto& f : futures) f.wait()\<close>: the new state and
  \<^verbatim>\<open>foundDirs\<close>, or \<open>None\<close> after the early return for an empty page.
\<close>

definition enumLevel :: "env \<Rightarrow> string \<Rightarrow> nat \<Rightarrow> pstate \<Rightarrow> pstate \<times> string list option" where
  "enumLevel E baseUrl depth st =
     (let (html, st1) = httpGet E baseUrl (emit (Enumerating depth baseUrl) st)
      in if html = [] then (emit (NoResponse depth) st1, None)
         else
           let (sig, st2) = notFoundSig E baseUrl st1;
               (st3, foundDirs) =
                 probeAll E baseUrl depth sig commonDirs (st2, knownDirs (extractLinks html))
           in (st3, Some foundDirs))"

text \<open>
  The visited set. Every caller of \<^verbatim>\<open>enumerateDirectories\<close> leaves \<^verbatim>\<open>visited\<close> null,
  so the set is \<^verbatim>\<open>staticVisited\<close>. The test \<^verbatim>\<open>visited->count(baseUrl)\<close> and
  \<^verbatim>\<open>visited->insert(baseUrl)\<close> run under one \<^verbatim>\<open>std::unique_lock lock(visMutex)\<close>,
  hence as one step: the operation the specification calls \<open>visitAndCheck\<close>.
\<close>

definition visitAndCheck :: "string \<Rightarrow> pstate \<Rightarrow> bool \<times> pstate" where
  "visitAndCheck url st =
     (if url \<in> staticVisited st then (False, st)
      else (True, st\<lparr>staticVisited := insert url (staticVisited st)\<rparr>))"

text \<open>
  \<^verbatim>\<open>enumerateDirectories\<close> (main.cpp). \<open>depth\<close> is 0 at the command handler and
  \<open>depth + 1\<close> at the recursive call, hence a \<open>nat\<close>; \<open>maxDepth\<close> is an \<^verbatim>\<open>int\<close>,
  with \<open>-1\<close> for "take the setting" (the 32-bit range is not modelled: \<open>depth\<close> never
  exceeds \<open>maxDepth + 1\<close>). In \<^verbatim>\<open>depth > maxDepth || visited->count(baseUrl)\<close>
  the depth is tested first. \<open>enumChildren\<close> is the last loop: each recursive call runs in a
  task of its own, whose exception, if any, stays in the future that \<^verbatim>\<open>f.wait()\<close> never
  reads. The model runs the tasks one after the other.
\<close>

function enumerateDirectories :: "env \<Rightarrow> string \<Rightarrow> nat \<Rightarrow> int \<Rightarrow> pstate \<Rightarrow> error + pstate"
  and enumChildren :: "env \<Rightarrow> string \<Rightarrow> string list \<Rightarrow> nat \<Rightarrow> int \<Rightarrow> pstate \<Rightarrow> pstate" where
  "enumerateDirectories E baseUrl depth maxDepth st =
     (case resolve_depth (max_enum_depth E) maxDepth of
        None \<Rightarrow> Inl StoiFailed
      | Some md \<Rightarrow>
          if int depth > md then Inr st
          else
            (case visitAndCheck baseUrl st of
               (False, st0) \<Rightarrow> Inr st0
             | (True, st0) \<Rightarrow>
                 (case enumLevel E baseUrl depth st0 of
                    (st1, None) \<Rightarrow> Inr st1
                  | (st1, Some foundDirs) \<Rightarrow>
                      Inr (enumChildren E baseUrl foundDirs depth md st1))))"
| "enumChildren E baseUrl [] depth md st = st"
| "enumChildren E baseUrl (dir # dirs) depth md st =
     (let fullUrl = combineUrl baseUrl dir;
          st1 = emit (DirLine depth dir) st
      in enumChildren E baseUrl dirs depth md
           (case enumerateDirectories E fullUrl (Suc depth) md st1 of
              Inr st2 \<Rightarrow> st2
            | Inl e \<Rightarrow> st1))"
  by pat_completeness auto
termination
proof (relation "measures
     [\<lambda>x. case x of
         Inl (E, baseUrl, depth, maxDepth, st) \<Rightarrow>
           (case resolve_depth (max_enum_depth E) maxDepth of
              None \<Rightarrow> 0
            | Some md \<Rightarrow> 2 * nat (md + 1 - int depth))
       | Inr (E, baseUrl, dirs, depth, md, st) \<Rightarrow>
           (case resolve_depth (max_enum_depth E) md of
              None \<Rightarrow> 0
            | Some md' \<Rightarrow> 2 * nat (md' - int depth) + 1),
      \<lambda>x. case x of
         Inl _ \<Rightarrow> 0
       | Inr (E, baseUrl, dirs, depth, md, st) \<Rightarrow> length dirs]",
       goal_cases)
  case 1
  show ?case by simp
next
  case 2
  then show ?case by (auto simp: resolve_depth_def split: if_splits)
next
  case 3
  then show ?case by (auto simp: resolve_depth_def split: option.splits)
next
  case 4
  then show ?case by (auto simp: resolve_depth_def split: option.splits)
qed

section \<open>Flat recursive lister\<close>

text \<open>The loop of \<^verbatim>\<open>listGlobalRecursive\<close> that fills \<^verbatim>\<open>directories\<close> and \<^verbatim>\<open>files\<close>.\<close>

fun partition_links :: "string list \<Rightarrow> string list \<times> string list" where
  "partition_links [] = ([], [])"
| "partition_links (link # links) =
     (let (directories, files) = partition_links links
      in if link = ''../'' \<or> link = ''./'' \<or> link = [] then (directories, files)
         else if link \<noteq> [] \<and> last link = CHR ''/'' then (link # directories, files)
         else (directories, link # files))"

text \<open>
  \<^verbatim>\<open>file.substr(file.find_last_of('.') + 1)\<close>: the text after the last dot, or the whole
  name when it has no dot (\<^verbatim>\<open>npos + 1\<close> is 0).
\<close>

definition ext_of :: "string \<Rightarrow> string" where
  "ext_of file = rev (takeWhile (\<lambda>c. c \<noteq> CHR ''.'') (rev file))"

definition file_colour :: "string \<Rightarrow> colour" where
  "file_colour file =
     (let ext = ext_of file
      in if ext \<in> set [''cpp'', ''h'', ''hpp'', ''c''] then Blue
         else if ext \<in> set [''sh'', ''py'', ''pl'', ''rb''] then Green
         else if ext \<in> set [''txt'', ''md''] then Yellow
         else if ext \<in> set [''zip'', ''tar'', ''gz'', ''rar''] then Red
         else if ext \<in> set [''json'', ''xml''] then Cyan
         else if ext \<in> set [''jpg'', ''png'', ''gif''] then Pink
         else Gray)"

text \<open>
  One level of \<^verbatim>\<open>listGlobalRecursive\<close>, from the line after the depth test to the loop
  that prints the files: the new state and \<^verbatim>\<open>directories\<close>, or \<open>None\<close> after one of
  the three early returns.
\<close>

definition listLevel :: "env \<Rightarrow> string \<Rightarrow> nat \<Rightarrow> pstate \<Rightarrow> pstate \<times> string list option" where
  "listLevel E url depth st =
     (let (html, st1) = httpGet E url (emit (Listing depth url) st)
      in if html = [] then (emit (FetchFailed depth) st1, None)
         else
           let links = extractLinks html
           in if links = [] then (emit (NoLinks depth) st1, None)
              else
                let (directories, files) = partition_links links
                in if files = [] \<and> directories = [] then (emit (NoEntries depth) st1, None)
                   else
                     (foldl (\<lambda>s file. emit (FileLine depth (file_colour file) file) s) st1 files,
                      Some directories))"

text \<open>
  \<^verbatim>\<open>listGlobalRecursive\<close> (main.cpp), with \<open>listChildren\<close> for its last loop; tasks
  and exceptions as in the enumerator.
\<close>

function listGlobalRecursive :: "env \<Rightarrow> string \<Rightarrow> nat \<Rightarrow> int \<Rightarrow> pstate \<Rightarrow> error + pstate"
  and listChildren :: "env \<Rightarrow> string \<Rightarrow> string list \<Rightarrow> nat \<Rightarrow> int \<Rightarrow> pstate \<Rightarrow> pstate" where
  "listGlobalRecursive E url depth maxDepth st =
     (case resolve_depth (max_list_depth E) maxDepth of
        None \<Rightarrow> Inl StoiFailed
      | Some md \<Rightarrow>
          if int depth > md then Inr st
          else
            (case listLevel E url depth st of
               (st1, None) \<Rightarrow> Inr st1
             | (st1, Some directories) \<Rightarrow> Inr (listChildren E url directories depth md st1)))"
| "listChildren E url [] depth md st = st"
| "listChildren E url (dir # dirs) depth md st =
     (let fullUrl = combineUrl url dir;
          st1 = emit (DirLine depth dir) st
      in listChildren E url dirs depth md
           (case listGlobalRecursive E fullUrl (Suc depth) md st1 of
              Inr st2 \<Rightarrow> st2
            | Inl e \<Rightarrow> st1))"
  by pat_completeness auto
termination
proof (relation "measures
     [\<lambda>x. case x of
         Inl (E, url, depth, maxDepth, st) \<Rightarrow>
           (case resolve_depth (max_list_depth E) maxDepth of
              None \<Rightarrow> 0
            | Some md \<Rightarrow> 2 * nat (md + 1 - int depth))
       | Inr (E, url, dirs, depth, md, st) \<Rightarrow>
           (case resolve_depth (max_list_depth E) md of
              None \<Rightarrow> 0
            | Some md' \<Rightarrow> 2 * nat (md' - int depth) + 1),
      \<lambda>x. case x of
         Inl _ \<Rightarrow> 0
       | Inr (E, url, dirs, depth, md, st) \<Rightarrow> length dirs]",
       goal_cases)
  case 1
  show ?case by simp
next
  case 2
  then show ?case by (auto simp: resolve_depth_def split: if_splits)
next
  case 3
  then show ?case by (auto simp: resolve_depth_def split: option.splits)
next
  case 4
  then show ?case by (auto simp: resolve_depth_def split: option.splits)
qed

declare regex_iter.simps [simp del] to_string.simps [simp del]
declare enumerateDirectories.simps [simp del] listGlobalRecursive.simps [simp del]

section \<open>What the patterns match\<close>

text \<open>
  The strings a pattern matches, without the order in which the matcher tries them:
  \<open>sem b r g u g'\<close> holds when \<open>r\<close> matches exactly \<open>u\<close>, turning capture \<open>g\<close> into
  \<open>g'\<close>; \<open>b\<close> tells whether \<open>u\<close> starts at the beginning of the subject string.
\<close>

fun sem :: "bool \<Rightarrow> rx \<Rightarrow> string option \<Rightarrow> string \<Rightarrow> string option \<Rightarrow> bool" where
  "sem b (Atom p) g u g' = (\<exists>c. u = [c] \<and> p c \<and> g' = g)"
| "sem b Bol g u g' = (b \<and> u = [] \<and> g' = g)"
| "sem b (Seq r1 r2) g u g' =
     (\<exists>u1 u2 g1. u = u1 @ u2 \<and> sem b r1 g u1 g1 \<and> sem (b \<and> u1 = []) r2 g1 u2 g')"
| "sem b (Opt r) g u g' = (sem b r g u g' \<or> (u = [] \<and> g' = g))"
| "sem b (StarG p) g u g' = ((\<forall>c\<in>set u. p c) \<and> g' = g)"
| "sem b (StarL p) g u g' = ((\<forall>c\<in>set u. p c) \<and> g' = g)"
| "sem b (Grp r) g u g' = (\<exists>g1. sem b r g u g1 \<and> g' = Some u)"

section \<open>Notions of the specification\<close>

subsection \<open>URL resolver\<close>

text \<open>
  \<open>absolute rel\<close>: \<open>rel\<close> begins with \<^verbatim>\<open>http://\<close> or \<^verbatim>\<open>https://\<close>.
  \<open>stripped base b\<close>: \<open>b\<close> is \<open>base\<close> without its trailing \<^verbatim>\<open>/\<close>, if it has one.
  \<open>scheme_host b m\<close>: \<open>m\<close> is the \<^verbatim>\<open>scheme://host\<close> prefix of \<open>b\<close>, the text the
  pattern \<^verbatim>\<open>^https?://[^/]+\<close> matches: the scheme and the host, which is not empty and
  extends to the next \<^verbatim>\<open>/\<close> or to the end of \<open>b\<close>.
\<close>

definition absolute :: "string \<Rightarrow> bool" where
  "absolute rel = (startsWith rel ''http://'' \<or> startsWith rel ''https://'')"

definition stripped :: "string \<Rightarrow> string \<Rightarrow> bool" where
  "stripped base b = (base = b @ ''/'' \<or> (b = base \<and> (\<forall>b'. base \<noteq> b' @ ''/'')))"

definition scheme_host :: "string \<Rightarrow> string \<Rightarrow> bool" where
  "scheme_host b m =
     (\<exists>scheme host rest. b = scheme @ host @ rest \<and> m = scheme @ host \<and>
        (scheme = ''http://'' \<or> scheme = ''https://'') \<and>
        host \<noteq> [] \<and> CHR ''/'' \<notin> set host \<and> (rest = [] \<or> hd rest = CHR ''/''))"

subsection \<open>Shared state and printed lines\<close>

text \<open>
  \<open>extends st st'\<close>: every visited URL of \<open>st\<close> is visited in \<open>st'\<close> and every cached
  signature of \<open>st\<close> is cached, with the same value, in \<open>st'\<close>.
  \<open>prints P st st'\<close>: \<open>st'\<close> has the lines of \<open>st\<close> followed by lines whose depth
  satisfies \<open>P\<close>. \<open>io_of\<close>: the requests and the lines of a returned state.
\<close>

definition extends :: "pstate \<Rightarrow> pstate \<Rightarrow> bool" where
  "extends st st' =
     (staticVisited st \<subseteq> staticVisited st' \<and> notFoundCache st \<subseteq>\<^sub>m notFoundCache st')"

fun ev_depth :: "event \<Rightarrow> nat" where
  "ev_depth (Enumerating d u) = d"
| "ev_depth (NoResponse d) = d"
| "ev_depth (Ok d dir sg) = d"
| "ev_depth (DirLine d dir) = d"
| "ev_depth (Listing d u) = d"
| "ev_depth (FetchFailed d) = d"
| "ev_depth (NoLinks d) = d"
| "ev_depth (NoEntries d) = d"
| "ev_depth (FileLine d c f) = d"

definition prints :: "(nat \<Rightarrow> bool) \<Rightarrow> pstate \<Rightarrow> pstate \<Rightarrow> bool" where
  "prints P st st' = (\<exists>evs. printed st' = printed st @ evs \<and> (\<forall>e\<in>set evs. P (ev_depth e)))"

definition io_of :: "error + pstate \<Rightarrow> (request list \<times> event list) option" where
  "io_of r = (case r of Inl e \<Rightarrow> None | Inr st \<Rightarrow> Some (requests st, printed st))"

subsection \<open>Sequences of baseline lookups, states that differ in the caches\<close>

text \<open>
  \<open>lookups E urls st\<close>: the lookups for \<open>urls\<close>, one after the other.
  \<open>with_caches V C n st\<close>: \<open>st\<close> with another visited set, cache and \<^verbatim>\<open>rand()\<close> count.
\<close>

fun lookups :: "env \<Rightarrow> string list \<Rightarrow> pstate \<Rightarrow> pstate" where
  "lookups E [] st = st"
| "lookups E (u # us) st = lookups E us (snd (notFoundSig E u st))"

definition with_caches :: "string set \<Rightarrow> (string \<rightharpoonup> string) \<Rightarrow> nat \<Rightarrow> pstate \<Rightarrow> pstate" where
  "with_caches V C n st = st\<lparr>staticVisited := V, notFoundCache := C, randCalls := n\<rparr>"

subsection \<open>Command handlers and sequences of calls\<close>

text \<open>
  \<^verbatim>\<open>cmdEnum\<close> and \<^verbatim>\<open>cmdListGlobal\<close> (main.cpp) start a crawl at \<^verbatim>\<open>config["gl_path"]\<close>
  with the default arguments, unless it is \<^verbatim>\<open>n/a\<close>; a command carries the environment
  it runs in. No handler catches the exception of \<^verbatim>\<open>stoi\<close>: the process ends (\<open>None\<close>).
  \<open>run\<close> is a sequence of commands of one process. \<open>visits urls st\<close> are the results of
  \<open>visitAndCheck\<close> called on \<open>urls\<close> in this order.
\<close>

datatype cmd = CmdEnum env string | CmdListGlobal env string

fun exec :: "cmd \<Rightarrow> pstate \<Rightarrow> pstate option" where
  "exec (CmdEnum E gl_path) st =
     (if gl_path = ''n/a'' then Some st
      else case enumerateDirectories E gl_path 0 (- 1) st of Inl e \<Rightarrow> None | Inr st' \<Rightarrow> Some st')"
| "exec (CmdListGlobal E gl_path) st =
     (if gl_path = ''n/a'' then Some st
      else case listGlobalRecursive E gl_path 0 (- 1) st of Inl e \<Rightarrow> None | Inr st' \<Rightarrow> Some st')"

fun run :: "cmd list \<Rightarrow> pstate \<Rightarrow> pstate option" where
  "run [] st = Some st"
| "run (c # cs) st = (case exec c st of None \<Rightarrow> None | Some st' \<Rightarrow> run cs st')"

fun visits :: "string list \<Rightarrow> pstate \<Rightarrow> bool list" where
  "visits [] st = []"
| "visits (u # us) st = fst (visitAndCheck u st) # visits us (snd (visitAndCheck u st))"

subsection \<open>Flat lister\<close>

text \<open>
  \<open>is_dir\<close> and \<open>is_file\<close>: the links the lister keeps, with and without a trailing
  slash. \<open>fetches st st'\<close>: \<open>st'\<close> has the requests of \<open>st\<close> followed by page fetches only.
\<close>

definition is_dir :: "string \<Rightarrow> bool" where
  "is_dir link = (link \<noteq> ''../'' \<and> link \<noteq> ''./'' \<and> link \<noteq> [] \<and> last link = CHR ''/'')"

definition is_file :: "string \<Rightarrow> bool" where
  "is_file link = (link \<noteq> ''../'' \<and> link \<noteq> ''./'' \<and> link \<noteq> [] \<and> last link \<noteq> CHR ''/'')"

definition fetches :: "pstate \<Rightarrow> pstate \<Rightarrow> bool" where
  "fetches st st' = (\<exists>us. requests st' = requests st @ map Body us)"

subsection \<open>Link extractor\<close>

text \<open>
  The form of anchor tag as the specification writes it, \<^verbatim>\<open><a ...href="VALUE"...>\<close>:
  \<open>anchor_tag before v after\<close> is the tag with \<open>before\<close> and \<open>after\<close> for the two
  \<^verbatim>\<open>...\<close> and \<open>v\<close> for \<open>VALUE\<close>.
\<close>

definition anchor_tag :: "string \<Rightarrow> string \<Rightarrow> string \<Rightarrow> string" where
  \<open>anchor_tag before v after = ''<a'' @ before @ ''href="'' @ v @ [dquote] @ after @ ''>''\<close>

text \<open>
  The form the source accepts. \<open>ieq\<close>: equal up to the case of letters. \<open>blank t\<close>: \<open>t\<close> is
  white space only. \<open>filler t\<close>: \<open>t\<close> can stand between \<^verbatim>\<open><a\<close> and \<^verbatim>\<open>href\<close>: it begins and
  ends with white space and has no \<^verbatim>\<open>>\<close>.
  \<open>tag_with t m v\<close>: \<open>m\<close> is the text \<^verbatim>\<open><a\<close>, \<open>t\<close>, \<^verbatim>\<open>href="\<close>, \<open>v\<close>, \<^verbatim>\<open>"\<close>, with \<open>t\<close> a filler and
  no double quote in \<open>v\<close>; \<open>anchor_href m v\<close>: so it is for some \<open>t\<close>.
  \<open>occurs_at html p\<close>: such a text begins at offset \<open>p\<close> of \<open>html\<close>.

  One \<^verbatim>\<open><a\<close> can begin several such texts, one for each \<^verbatim>\<open>href="\<close> that a filler reaches.
  \<open>taken s m v\<close> singles out the one that counts among those that begin \<open>s\<close>: the
  shortest whose filler is not blank (some attribute text stands before \<^verbatim>\<open>href\<close>), and the
  one with the blank filler only when there is no other.

  \<open>links_of html vs\<close>: \<open>vs\<close> are the values of the texts taken in \<open>html\<close> from left to
  right: the one at the leftmost offset where a text begins, then those of the rest of the
  document after its closing quote.
  \<open>href_gap\<close> and \<open>href_tail\<close> are the parts \<^verbatim>\<open>[^>]*?\s+\<close> and \<^verbatim>\<open>href="([^"]*)"\<close> of
  \<open>href_regex\<close>.
\<close>

definition ieq :: "string \<Rightarrow> string \<Rightarrow> bool" where
  "ieq a b = (map to_lower a = map to_lower b)"

definition blank :: "string \<Rightarrow> bool" where
  "blank t = (\<forall>c\<in>set t. isspace c)"

definition filler :: "string \<Rightarrow> bool" where
  "filler t = (t \<noteq> [] \<and> isspace (hd t) \<and> isspace (last t) \<and> CHR ''>'' \<notin> set t)"

definition tag_with :: "string \<Rightarrow> string \<Rightarrow> string \<Rightarrow> bool" where
  \<open>tag_with t m v =
     (\<exists>a h. m = a @ t @ h @ v @ [dquote] \<and> ieq a ''<a'' \<and> filler t \<and> ieq h ''href="'' \<and>
            dquote \<notin> set v)\<close>

definition anchor_href :: "string \<Rightarrow> string \<Rightarrow> bool" where
  "anchor_href m v = (\<exists>t. tag_with t m v)"

definition occurs_at :: "string \<Rightarrow> nat \<Rightarrow> bool" where
  "occurs_at html p = (\<exists>m v rest. drop p html = m @ rest \<and> anchor_href m v)"

definition begins :: "string \<Rightarrow> string \<Rightarrow> string \<Rightarrow> string \<Rightarrow> bool" where
  "begins s t m v = (tag_with t m v \<and> (\<exists>rest. s = m @ rest))"

definition taken :: "string \<Rightarrow> string \<Rightarrow> string \<Rightarrow> bool" where
  "taken s m v =
     (\<exists>t. begins s t m v \<and>
          (\<forall>t' m' v'. begins s t' m' v' \<longrightarrow>
             (if blank t then blank t' else blank t' \<or> length t \<le> length t')))"

inductive links_of :: "string \<Rightarrow> string list \<Rightarrow> bool" where
  none: "(\<forall>p. \<not> occurs_at html p) \<Longrightarrow> links_of html []"
| step: "html = pre @ m @ post \<Longrightarrow> taken (m @ post) m v \<Longrightarrow>
         (\<forall>p < length pre. \<not> occurs_at html p) \<Longrightarrow> links_of post vs \<Longrightarrow>
         links_of html (v # vs)"

definition href_gap :: rx where
  "href_gap = Seq (StarL (\<lambda>c. c \<noteq> CHR ''>'')) (plusG isspace)"

definition href_tail :: rx where
  "href_tail = litis ''href='' (Seq (liti dquote) (Seq (Grp (StarG (\<lambda>c. c \<noteq> dquote))) (liti dquote)))"

subsection \<open>Sample environments and states\<close>

text \<open>
  Concrete servers and states on which the theorems are instantiated. \<open>E_down\<close> answers
  nothing; \<open>E_loop\<close> answers every request with a page that refreshes to \<^verbatim>\<open>http://h\<close>;
  \<open>E_docs\<close> serves one page, at \<^verbatim>\<open>http://h\<close>, with a link to \<^verbatim>\<open>docs/\<close>; \<open>E_cycle\<close>
  answers every request with a page that links to \<^verbatim>\<open>http://h/\<close>. \<open>st_init\<close> is the
  state of a fresh process, \<open>st_failed\<close> that state after a crawl of \<^verbatim>\<open>http://h\<close> whose
  fetch failed, \<open>st_listed\<close> the latter after a listing of the same URL.
\<close>

definition E_down :: env where
  "E_down = \<lparr> net = (\<lambda>h u. []), status = (\<lambda>h u. None),
               rands = (\<lambda>n. 0), max_enum_depth = Some 3, max_list_depth = Some 5 \<rparr>"

definition E_loop :: env where
  \<open>E_loop = \<lparr> net = (\<lambda>h u. ''http-equiv="refresh" http://h''), status = (\<lambda>h u. None),
               rands = (\<lambda>n. 0), max_enum_depth = Some 3, max_list_depth = Some 5 \<rparr>\<close>

definition E_docs :: env where
  \<open>E_docs = \<lparr> net = (\<lambda>h u. if u = ''http://h'' then ''<a href="docs/">Docs</a>'' else []),
               status = (\<lambda>h u. None), rands = (\<lambda>n. 0),
               max_enum_depth = Some 3, max_list_depth = Some 5 \<rparr>\<close>

definition E_cycle :: env where
  \<open>E_cycle = \<lparr> net = (\<lambda>h u. ''<a href="http://h/">up</a>''), status = (\<lambda>h u. None),
                rands = (\<lambda>n. 0), max_enum_depth = Some 3, max_list_depth = Some 5 \<rparr>\<close>

definition st_init :: pstate where
  "st_init = \<lparr> staticVisited = {}, notFoundCache = Map.empty, randCalls = 0, requests = [],
               printed = [] \<rparr>"

definition st_failed :: pstate where
  "st_failed = \<lparr> staticVisited = {''http://h''}, notFoundCache = Map.empty, randCalls = 0,
                 requests = [Body ''http://h''],
                 printed = [Enumerating 0 ''http://h'', NoResponse 0] \<rparr>"

definition st_listed :: pstate where
  "st_listed = st_failed\<lparr> requests := [Body ''http://h'', Body ''http://h''],
      printed := [Enumerating 0 ''http://h'', NoResponse 0, Listing 0 ''http://h'', FetchFailed 0] \<rparr>"

section \<open>The matcher against the meaning of the patterns\<close>

lemma starG_sound:
  "starG p s k = Some x \<Longrightarrow> \<exists>u v. s = u @ v \<and> (\<forall>c\<in>set u. p c) \<and> k v = Some x"
proof (induction s)
  case Nil
  then show ?case by auto
next
  case (Cons c cs)
  show ?case
  proof (cases "p c \<and> starG p cs k = Some x")
    case True
    with Cons.IH obtain u v where "cs = u @ v" "\<forall>c\<in>set u. p c" "k v = Some x" by blast
    then show ?thesis using True by (intro exI [of _ "c # u"] exI [of _ v]) simp
  next
    case False
    with Cons.prems have "k (c # cs) = Some x"
      by (auto split: if_splits option.splits)
    then show ?thesis by (intro exI [of _ "[]"] exI [of _ "c # cs"]) simp
  qed
qed

lemma starG_complete:
  "starG p s k = None \<Longrightarrow> s = u @ v \<Longrightarrow> \<forall>c\<in>set u. p c \<Longrightarrow> k v = None"
proof (induction s arbitrary: u)
  case Nil
  then show ?case by simp
next
  case (Cons c cs)
  show ?case
  proof (cases u)
    case Nil
    with Cons.prems show ?thesis by (auto split: if_splits option.splits)
  next
    case (Cons d u')
    with Cons.prems have "p c" "cs = u' @ v" "\<forall>c\<in>set u'. p c" by auto
    moreover from Cons.prems(1) \<open>p c\<close> have "starG p cs k = None"
      by (auto split: option.splits)
    ultimately show ?thesis using Cons.IH by blast
  qed
qed

lemma starL_sound:
  "starL p s k = Some x \<Longrightarrow> \<exists>u v. s = u @ v \<and> (\<forall>c\<in>set u. p c) \<and> k v = Some x"
proof (induction s)
  case Nil
  then show ?case by auto
next
  case (Cons c cs)
  show ?case
  proof (cases "k (c # cs) = Some x")
    case True
    then show ?thesis by (intro exI [of _ "[]"] exI [of _ "c # cs"]) simp
  next
    case False
    with Cons.prems have pc: "p c" and "starL p cs k = Some x"
      by (auto split: if_splits option.splits)
    with Cons.IH obtain u v where "cs = u @ v" "\<forall>c\<in>set u. p c" "k v = Some x" by blast
    then show ?thesis using pc by (intro exI [of _ "c # u"] exI [of _ v]) simp
  qed
qed

lemma starL_complete:
  "starL p s k = None \<Longrightarrow> s = u @ v \<Longrightarrow> \<forall>c\<in>set u. p c \<Longrightarrow> k v = None"
proof (induction s arbitrary: u)
  case Nil
  then show ?case by simp
next
  case (Cons c cs)
  show ?case
  proof (cases u)
    case Nil
    with Cons.prems show ?thesis by (auto split: if_splits option.splits)
  next
    case (Cons d u')
    with Cons.prems have "p c" "cs = u' @ v" "\<forall>c\<in>set u'. p c" by auto
    moreover from Cons.prems(1) \<open>p c\<close> have "starL p cs k = None"
      by (auto split: option.splits)
    ultimately show ?thesis using Cons.IH by blast
  qed
qed

lemma rmatch_sound:
  "rmatch len r g s k = Some x \<Longrightarrow> length s \<le> len \<Longrightarrow>
   \<exists>u v g'. s = u @ v \<and> sem (length s = len) r g u g' \<and> k g' v = Some x"
proof (induction r arbitrary: g s k)
  case (Atom p)
  then obtain c cs where "s = c # cs" "p c" "k g cs = Some x"
    by (auto split: list.splits if_splits)
  then show ?case by (intro exI [of _ "[c]"] exI [of _ cs] exI [of _ g]) simp
next
  case Bol
  then show ?case by (auto split: if_splits)
next
  case (Seq a b)
  from Seq.IH(1) [OF Seq.prems(1)[simplified] Seq.prems(2)]
  obtain u1 v1 g1 where s: "s = u1 @ v1" and a: "sem (length s = len) a g u1 g1"
    and b: "rmatch len b g1 v1 k = Some x" by blast
  have "length v1 \<le> len" using s Seq.prems(2) by simp
  from Seq.IH(2) [OF b this]
  obtain u2 v g' where v1: "v1 = u2 @ v" and b': "sem (length v1 = len) b g1 u2 g'"
    and k: "k g' v = Some x" by blast
  have "(length v1 = len) = (length s = len \<and> u1 = [])"
    using s Seq.prems(2) by auto
  with a b' have "sem (length s = len) (Seq a b) g (u1 @ u2) g'" by auto
  with s v1 k show ?case by (intro exI [of _ "u1 @ u2"] exI [of _ v] exI [of _ g']) simp
next
  case (Opt a)
  show ?case
  proof (cases "rmatch len a g s k")
    case None
    with Opt.prems have "k g s = Some x" by simp
    then show ?thesis by (intro exI [of _ "[]"] exI [of _ s] exI [of _ g]) simp
  next
    case (Some y)
    with Opt.prems have "rmatch len a g s k = Some x" by simp
    from Opt.IH [OF this Opt.prems(2)] show ?thesis by auto
  qed
next
  case (StarG p)
  then show ?case using starG_sound [of p s "k g" x] by auto
next
  case (StarL p)
  then show ?case using starL_sound [of p s "k g" x] by auto
next
  case (Grp a)
  from Grp.IH [OF Grp.prems(1)[simplified] Grp.prems(2)]
  obtain u v g1 where s: "s = u @ v" and a: "sem (length s = len) a g u g1"
    and k: "k (Some (take (length s - length v) s)) v = Some x" by blast
  from s have "take (length s - length v) s = u" by simp
  with a k s show ?case by (intro exI [of _ u] exI [of _ v] exI [of _ "Some u"]) auto
qed

lemma rmatch_complete:
  "rmatch len r g s k = None \<Longrightarrow> length s \<le> len \<Longrightarrow> s = u @ v \<Longrightarrow>
   sem (length s = len) r g u g' \<Longrightarrow> k g' v = None"
proof (induction r arbitrary: g s k u v g')
  case (Atom p)
  then show ?case by (auto split: list.splits if_splits)
next
  case Bol
  then show ?case by (auto split: if_splits)
next
  case (Seq a b)
  from Seq.prems(4) obtain u1 u2 g1 where u: "u = u1 @ u2"
    and a: "sem (length s = len) a g u1 g1"
    and b: "sem (length s = len \<and> u1 = []) b g1 u2 g'" by auto
  have s: "s = u1 @ (u2 @ v)" using Seq.prems(3) u by simp
  have n: "rmatch len b g1 (u2 @ v) k = None"
    using Seq.IH(1) [OF Seq.prems(1)[simplified] Seq.prems(2) s a] .
  have le: "length (u2 @ v) \<le> len" using s Seq.prems(2) by simp
  have "(length (u2 @ v) = len) = (length s = len \<and> u1 = [])"
    using s Seq.prems(2) by auto
  with b have "sem (length (u2 @ v) = len) b g1 u2 g'" by simp
  from Seq.IH(2) [OF n le refl this] show ?case .
next
  case (Opt a)
  from Opt.prems(1) have n: "rmatch len a g s k = None" and k: "k g s = None"
    by (auto split: option.splits)
  from Opt.prems(4) consider "sem (length s = len) a g u g'" | "u = []" "g' = g" by auto
  then show ?case
  proof cases
    case 1
    from Opt.IH [OF n Opt.prems(2,3) this] show ?thesis .
  next
    case 2
    with k Opt.prems(3) show ?thesis by simp
  qed
next
  case (StarG p)
  then show ?case using starG_complete [of p s "k g" u v] by auto
next
  case (StarL p)
  then show ?case using starL_complete [of p s "k g" u v] by auto
next
  case (Grp a)
  from Grp.prems(4) obtain g1 where a: "sem (length s = len) a g u g1" and g': "g' = Some u"
    by auto
  from Grp.IH [OF Grp.prems(1)[simplified] Grp.prems(2,3) a]
  have "k (Some (take (length s - length v) s)) v = None" .
  moreover have "take (length s - length v) s = u" using Grp.prems(3) by simp
  ultimately show ?case using g' by simp
qed

lemma startsWith_iff: "startsWith s pre \<longleftrightarrow> (\<exists>t. s = pre @ t)"
  unfolding startsWith_def
  by (metis append_eq_conv_conj append_take_drop_id length_append linorder_not_less not_add_less1)

lemma starG_total:
  "(\<And>s'. k s' \<noteq> None) \<Longrightarrow> starG p s k = k (dropWhile p s)"
proof (induction s)
  case Nil
  show ?case by simp
next
  case (Cons c cs)
  have ih: "starG p cs k = k (dropWhile p cs)" using Cons by blast
  have "k (dropWhile p cs) \<noteq> None" using Cons.prems by blast
  with ih show ?case by (auto split: option.splits)
qed

lemma length_sub_dropWhile:
  "length xs - length (dropWhile p xs) = length (takeWhile p xs)"
proof -
  have "length xs = length (takeWhile p xs) + length (dropWhile p xs)"
    by (metis length_append takeWhile_dropWhile_id)
  then show ?thesis by simp
qed

lemma search_from_Bol:
  "length s < len \<Longrightarrow> search_from len (Seq Bol r) s = None"
  by (induction s) (auto simp: match_at_def)

lemma regex_search_Bol:
  "regex_search (Seq Bol r) s =
     (case match_at False (length s) r s of None \<Rightarrow> None | Some (n, g) \<Rightarrow> Some (0, n, g))"
  by (cases s) (auto simp: regex_search_def match_at_def search_from_Bol split: option.splits)

lemma sem_Seq_Atom:
  "sem b (Seq (Atom p) r) g u g' \<longleftrightarrow> (\<exists>c u2. u = c # u2 \<and> p c \<and> sem False r g u2 g')"
proof
  assume "sem b (Seq (Atom p) r) g u g'"
  then show "\<exists>c u2. u = c # u2 \<and> p c \<and> sem False r g u2 g'" by auto
next
  assume "\<exists>c u2. u = c # u2 \<and> p c \<and> sem False r g u2 g'"
  then obtain c u2 where "u = c # u2" "p c" "sem False r g u2 g'" by blast
  then have "u = [c] @ u2 \<and> sem b (Atom p) g [c] g \<and> sem (b \<and> [c] = []) r g u2 g'"
    by simp
  then show "sem b (Seq (Atom p) r) g u g'" unfolding sem.simps(3) by blast
qed

lemma sem_lits:
  "sem b (lits cs r) g u g' \<longleftrightarrow> (\<exists>u'. u = cs @ u' \<and> sem (b \<and> cs = []) r g u' g')"
proof (induction cs arbitrary: b u)
  case Nil
  show ?case by (simp add: lits_def)
next
  case (Cons c cs)
  have "lits (c # cs) r = Seq (Atom (\<lambda>x. x = c)) (lits cs r)" by (simp add: lits_def lit_def)
  then show ?case using Cons by (auto simp: sem_Seq_Atom)
qed

lemma sem_plusG:
  "sem b (plusG p) g u g' \<longleftrightarrow> (u \<noteq> [] \<and> (\<forall>c\<in>set u. p c) \<and> g' = g)"
  unfolding plusG_def sem_Seq_Atom by (cases u) auto

lemma sem_Seq_Opt:
  "sem b (Seq (Opt a) r) g u g' \<longleftrightarrow> sem b (Seq a r) g u g' \<or> sem b r g u g'"
proof
  assume "sem b (Seq (Opt a) r) g u g'"
  then obtain u1 u2 g1 where u: "u = u1 @ u2"
    and a: "sem b a g u1 g1 \<or> (u1 = [] \<and> g1 = g)"
    and r: "sem (b \<and> u1 = []) r g1 u2 g'" by auto
  from a show "sem b (Seq a r) g u g' \<or> sem b r g u g'"
  proof
    assume "sem b a g u1 g1"
    with u r have "sem b (Seq a r) g u g'" unfolding sem.simps(3) by blast
    then show ?thesis ..
  next
    assume "u1 = [] \<and> g1 = g"
    with u r have "sem b r g u g'" by simp
    then show ?thesis ..
  qed
next
  assume "sem b (Seq a r) g u g' \<or> sem b r g u g'"
  then show "sem b (Seq (Opt a) r) g u g'"
  proof
    assume "sem b (Seq a r) g u g'"
    then obtain u1 u2 g1 where "u = u1 @ u2" "sem b a g u1 g1" "sem (b \<and> u1 = []) r g1 u2 g'"
      by auto
    then have "u = u1 @ u2 \<and> sem b (Opt a) g u1 g1 \<and> sem (b \<and> u1 = []) r g1 u2 g'" by simp
    then show ?thesis unfolding sem.simps(3) by blast
  next
    assume "sem b r g u g'"
    then have "u = [] @ u \<and> sem b (Opt a) g [] g \<and> sem (b \<and> ([]::string) = []) r g u g'"
      by simp
    then show ?thesis unfolding sem.simps(3) by blast
  qed
qed

lemma sem_opt_lit:
  "sem b (Seq (Opt (lit c)) r) g u g' \<longleftrightarrow>
     (\<exists>u2. u = c # u2 \<and> sem False r g u2 g') \<or> sem b r g u g'"
  unfolding sem_Seq_Opt lit_def sem_Seq_Atom by auto

lemma sem_domain_tail:
  "sem b (lits ''://'' (plusG p)) g u g' \<longleftrightarrow>
     (\<exists>host. u = ''://'' @ host \<and> host \<noteq> [] \<and> (\<forall>c\<in>set host. p c) \<and> g' = g)"
  by (simp only: sem_lits sem_plusG) 

lemma sem_domain_body:
  "sem b domain_body g u g' \<longleftrightarrow>
     g' = g \<and> (\<exists>host. (u = ''http://'' @ host \<or> u = ''https://'' @ host) \<and>
                    host \<noteq> [] \<and> CHR ''/'' \<notin> set host)"
proof -
  let ?p = "\<lambda>c. c \<noteq> CHR ''/''"
  have "sem b domain_body g u g' \<longleftrightarrow>
     (\<exists>u'. u = ''http'' @ u' \<and>
        ((\<exists>u2. u' = CHR ''s'' # u2 \<and> sem False (lits ''://'' (plusG ?p)) g u2 g') \<or>
         sem False (lits ''://'' (plusG ?p)) g u' g'))"
    unfolding domain_body_def by (simp only: sem_lits sem_opt_lit) simp
  also have "\<dots> \<longleftrightarrow> g' = g \<and> (\<exists>host. (u = ''http://'' @ host \<or> u = ''https://'' @ host) \<and>
                    host \<noteq> [] \<and> CHR ''/'' \<notin> set host)"
    unfolding sem_domain_tail by auto
  finally show ?thesis .
qed

lemma len_tw_dw: "length (takeWhile p xs) + length (dropWhile p xs) = length xs"
  by (metis length_append takeWhile_dropWhile_id)

lemma match_domain_http:
  "x \<noteq> CHR ''/'' \<Longrightarrow>
   match_at False len domain_body (''http://'' @ x # xs) =
     Some (8 + length (takeWhile (\<lambda>c. c \<noteq> CHR ''/'') xs), None)"
  using len_tw_dw [of "\<lambda>c. c \<noteq> CHR ''/''" xs]
  by (simp add: match_at_def domain_body_def lits_def lit_def plusG_def starG_total)

lemma match_domain_https:
  "x \<noteq> CHR ''/'' \<Longrightarrow>
   match_at False len domain_body (''https://'' @ x # xs) =
     Some (9 + length (takeWhile (\<lambda>c. c \<noteq> CHR ''/'') xs), None)"
  using len_tw_dw [of "\<lambda>c. c \<noteq> CHR ''/''" xs]
  by (simp add: match_at_def domain_body_def lits_def lit_def plusG_def starG_total)

lemma domain_regex_eq: "domain_regex = Seq Bol domain_body"
  by (simp add: domain_regex_def)

lemma match_at_sound:
  assumes "match_at False len r s = Some (n, g)" and "length s \<le> len"
  shows "\<exists>u v. s = u @ v \<and> n = length u \<and> sem (length s = len) r None u g"
proof -
  from rmatch_sound [OF assms(1) [unfolded match_at_def] assms(2)]
  obtain u v g' where "s = u @ v" "sem (length s = len) r None u g'"
    "(if False \<and> length v = length s then None else Some (length s - length v, g')) = Some (n, g)"
    by blast
  then show ?thesis by (intro exI [of _ u] exI [of _ v]) auto
qed

lemma match_at_complete:
  assumes "match_at False len r s = None" and "length s \<le> len" and "s = u @ v"
  shows "\<not> sem (length s = len) r None u g'"
proof
  assume "sem (length s = len) r None u g'"
  from rmatch_complete [OF assms(1) [unfolded match_at_def] assms(2,3) this]
  show False by simp
qed

lemma domain_search_Some:
  assumes "scheme_host b m"
  shows "regex_search domain_regex b = Some (0, length m, None)"
proof -
  let ?p = "\<lambda>c. c \<noteq> CHR ''/''"
  from assms obtain scheme host rest where b: "b = scheme @ host @ rest"
    and m: "m = scheme @ host" and sch: "scheme = ''http://'' \<or> scheme = ''https://''"
    and host: "host \<noteq> []" "CHR ''/'' \<notin> set host" and rest: "rest = [] \<or> hd rest = CHR ''/''"
    unfolding scheme_host_def by blast
  from host obtain x xs where hx: "host = x # xs" "x \<noteq> CHR ''/''" "\<forall>c\<in>set xs. ?p c"
    by (cases host) auto
  have tw: "takeWhile ?p (xs @ rest) = xs"
    using hx(3) rest by (cases rest) (auto simp: takeWhile_append2 takeWhile_eq_all_conv)
  from sch show ?thesis
  proof
    assume "scheme = ''http://''"
    then have "b = ''http://'' @ x # (xs @ rest)" "length m = 8 + length xs"
      using b m hx by simp_all
    then show ?thesis
      using match_domain_http [OF hx(2), of "length b" "xs @ rest"] tw
      by (simp add: regex_search_Bol domain_regex_eq)
  next
    assume "scheme = ''https://''"
    then have "b = ''https://'' @ x # (xs @ rest)" "length m = 9 + length xs"
      using b m hx by simp_all
    then show ?thesis
      using match_domain_https [OF hx(2), of "length b" "xs @ rest"] tw
      by (simp add: regex_search_Bol domain_regex_eq)
  qed
qed

lemma domain_search_None:
  assumes "\<forall>m. \<not> scheme_host b m"
  shows "regex_search domain_regex b = None"
proof (rule ccontr)
  let ?p = "\<lambda>c. c \<noteq> CHR ''/''"
  assume "regex_search domain_regex b \<noteq> None"
  then obtain n g where "match_at False (length b) domain_body b = Some (n, g)"
    by (auto simp: regex_search_Bol domain_regex_eq split: option.splits)
  from match_at_sound [OF this]
  obtain u v where b: "b = u @ v" and "sem True domain_body None u g" by auto
  then obtain scheme host where u: "u = scheme @ host"
    and sch: "scheme = ''http://'' \<or> scheme = ''https://''"
    and host: "host \<noteq> []" "CHR ''/'' \<notin> set host"
    unfolding sem_domain_body by blast
  let ?h = "takeWhile ?p (host @ v)" and ?r = "dropWhile ?p (host @ v)"
  have "b = scheme @ ?h @ ?r" using b u by simp
  moreover have "?h \<noteq> []" using host by (cases host) auto
  moreover have "CHR ''/'' \<notin> set ?h" by (auto dest: set_takeWhileD)
  moreover have "?r = [] \<or> hd ?r = CHR ''/''" using hd_dropWhile [of ?p "host @ v"] by blast
  ultimately have "scheme_host b (scheme @ ?h)"
    unfolding scheme_host_def using sch by blast
  with assms show False by blast
qed

section \<open>URL resolver: the case analysis\<close>

lemma stripped_eq:
  "stripped base b \<longleftrightarrow> b = (if base \<noteq> [] \<and> last base = CHR ''/'' then butlast base else base)"
proof (cases "base \<noteq> [] \<and> last base = CHR ''/''")
  case True
  then have "base = butlast base @ ''/''" by (metis append_butlast_last_id)
  then show ?thesis using True unfolding stripped_def by (metis butlast_snoc)
next
  case False
  then have "\<forall>b'. base \<noteq> b' @ ''/''" by auto
  then show ?thesis using False unfolding stripped_def by auto
qed

text \<open>
  C3. \<open>combineUrl\<close> follows the case analysis of the specification: an empty relative
  gives \<open>base\<close>; a relative that begins with \<^verbatim>\<open>http://\<close> or \<^verbatim>\<open>https://\<close> is returned
  as it is; otherwise, with \<open>b\<close> the base without its trailing slash, a relative that begins
  with \<^verbatim>\<open>/\<close> gives the \<^verbatim>\<open>scheme://host\<close> prefix of \<open>b\<close> followed by the relative, or
  \<open>b\<close> followed by the relative when \<open>b\<close> has no such prefix, and any other relative gives
  \<open>b\<close>, a slash and the relative. The example of the specification is the last conjunct.
\<close>

theorem combineUrl_cases:
  "combineUrl base [] = base \<and>
   (absolute rel \<longrightarrow> combineUrl base rel = rel) \<and>
   (rel \<noteq> [] \<and> \<not> absolute rel \<and> stripped base b \<longrightarrow>
      (hd rel = CHR ''/'' \<and> scheme_host b m \<longrightarrow> combineUrl base rel = m @ rel) \<and>
      (hd rel = CHR ''/'' \<and> (\<forall>m'. \<not> scheme_host b m') \<longrightarrow> combineUrl base rel = b @ rel) \<and>
      (hd rel \<noteq> CHR ''/'' \<longrightarrow> combineUrl base rel = b @ ''/'' @ rel)) \<and>
   combineUrl ''http://h.com/a'' ''/b'' = ''http://h.com/b''"
proof (intro conjI impI)
  show "combineUrl base [] = base" by (simp add: combineUrl_def)
next
  assume "absolute rel"
  then show "combineUrl base rel = rel"
    by (auto simp: combineUrl_def absolute_def startsWith_def)
next
  assume a: "rel \<noteq> [] \<and> \<not> absolute rel \<and> stripped base b"
    and h: "hd rel = CHR ''/'' \<and> scheme_host b m"
  from h have "\<exists>rest. b = m @ rest" unfolding scheme_host_def by auto
  then have "take (length m) b = m" by auto
  then show "combineUrl base rel = m @ rel"
    using a h domain_search_Some [of b m]
    by (simp add: combineUrl_def absolute_def stripped_eq Let_def)
next
  assume a: "rel \<noteq> [] \<and> \<not> absolute rel \<and> stripped base b"
    and h: "hd rel = CHR ''/'' \<and> (\<forall>m'. \<not> scheme_host b m')"
  then show "combineUrl base rel = b @ rel"
    using domain_search_None [of b]
    by (simp add: combineUrl_def absolute_def stripped_eq Let_def)
next
  assume a: "rel \<noteq> [] \<and> \<not> absolute rel \<and> stripped base b"
    and h: "hd rel \<noteq> CHR ''/''"
  then show "combineUrl base rel = b @ ''/'' @ rel"
    by (simp add: combineUrl_def absolute_def stripped_eq Let_def)
next
  show "combineUrl ''http://h.com/a'' ''/b'' = ''http://h.com/b''" by code_simp
qed

theorem combineUrl_cases_witness:
  "absolute ''http://x/y'' \<and> combineUrl ''http://h.com/a'' ''http://x/y'' = ''http://x/y'' \<and>
   stripped ''http://h.com/a/'' ''http://h.com/a'' \<and>
   scheme_host ''http://h.com/a'' ''http://h.com'' \<and>
   combineUrl ''http://h.com/a/'' ''/b'' = ''http://h.com/b'' \<and>
   stripped ''ftp://h/'' ''ftp://h'' \<and> (\<forall>m'. \<not> scheme_host ''ftp://h'' m') \<and>
   combineUrl ''ftp://h/'' ''/b'' = ''ftp://h/b'' \<and>
   combineUrl ''http://h.com/a/'' ''c'' = ''http://h.com/a/c''"
proof -
  have abs: "absolute ''http://x/y''" "\<not> absolute ''/b''" "\<not> absolute ''c''"
    by (simp_all add: absolute_def startsWith_def)
  have st: "stripped ''http://h.com/a/'' ''http://h.com/a''" "stripped ''ftp://h/'' ''ftp://h''"
    by (simp_all add: stripped_def)
  have "''http://h.com/a'' = ''http://'' @ ''h.com'' @ ''/a'' \<and>
        ''http://h.com'' = ''http://'' @ ''h.com'' \<and>
        (''http://'' = ''http://'' \<or> ''http://'' = ''https://'') \<and>
        ''h.com'' \<noteq> [] \<and> CHR ''/'' \<notin> set ''h.com'' \<and> (''/a'' = [] \<or> hd ''/a'' = CHR ''/'')"
    by simp
  then have sh: "scheme_host ''http://h.com/a'' ''http://h.com''"
    unfolding scheme_host_def by blast
  have no: "\<forall>m'. \<not> scheme_host ''ftp://h'' m'"
    by (auto simp: scheme_host_def)
  show ?thesis
    using abs st sh no
      combineUrl_cases [of "''http://h.com/a''" "''http://x/y''"]
      combineUrl_cases [of "''http://h.com/a/''" "''/b''" "''http://h.com/a''" "''http://h.com''"]
      combineUrl_cases [of "''ftp://h/''" "''/b''" "''ftp://h''"]
      combineUrl_cases [of "''http://h.com/a/''" "''c''" "''http://h.com/a''"]
    by simp
qed

section \<open>Heuristic classifier: signals, score and acceptance\<close>

lemma printed_emit [simp]: "printed (emit e st) = printed st @ [e]"
  and requests_emit [simp]: "requests (emit e st) = requests st"
  and visited_emit [simp]: "staticVisited (emit e st) = staticVisited st"
  and cache_emit [simp]: "notFoundCache (emit e st) = notFoundCache st"
  and rand_emit [simp]: "randCalls (emit e st) = randCalls st"
  by (simp_all add: emit_def)

lemma found_iff: "found s pat \<longleftrightarrow> (\<exists>pre post. s = pre @ pat @ post)"
proof (induction s)
  case Nil
  show ?case by (simp add: found_def)
next
  case (Cons c cs)
  show ?case
  proof (cases "startsWith (c # cs) pat")
    case True
    then obtain t where "c # cs = [] @ pat @ t" unfolding startsWith_iff by auto
    then have "\<exists>pre post. c # cs = pre @ pat @ post" by blast
    with True show ?thesis by (simp add: found_def)
  next
    case False
    have "(\<exists>pre post. c # cs = pre @ pat @ post) \<longleftrightarrow> (\<exists>pre post. cs = pre @ pat @ post)"
    proof
      assume "\<exists>pre post. c # cs = pre @ pat @ post"
      then obtain pre post where e: "c # cs = pre @ pat @ post" by blast
      show "\<exists>pre post. cs = pre @ pat @ post"
      proof (cases pre)
        case Nil
        with e False show ?thesis unfolding startsWith_iff by auto
      next
        case (Cons d pre')
        with e have "cs = pre' @ pat @ post" by simp
        then show ?thesis by blast
      qed
    next
      assume "\<exists>pre post. cs = pre @ pat @ post"
      then obtain pre post where "cs = pre @ pat @ post" by blast
      then have "c # cs = (c # pre) @ pat @ post" by simp
      then show "\<exists>pre post. c # cs = pre @ pat @ post" by blast
    qed
    with False Cons show ?thesis by (simp add: found_def)
  qed
qed

lemma score_count:
  "score sg = length (filter id [not404 sg, statusOk sg, looksLikeDir sg, titleOk sg, notRedirect sg])"
  by (simp add: score_def)

lemma probeDir_empty:
  "net E (requests st) (combineUrl baseUrl dir) = [] \<Longrightarrow>
   probeDir E baseUrl depth sig dir (st, fd) =
     (st\<lparr>requests := requests st @ [Body (combineUrl baseUrl dir)]\<rparr>, fd)"
  by (simp add: probeDir_def httpGet_def)

lemma probeDir_nonempty:
  assumes "net E (requests st) (combineUrl baseUrl dir) \<noteq> []"
  shows "probeDir E baseUrl depth sig dir (st, fd) =
    (let tryUrl = combineUrl baseUrl dir;
         code = status E (requests st @ [Body tryUrl]) tryUrl;
         sg = classify baseUrl (net E (requests st) tryUrl) sig code;
         st2 = st\<lparr>requests := requests st @ [Body tryUrl] @ (if code = None then [] else [Code tryUrl])\<rparr>
     in if 2 \<le> score sg then (emit (Ok depth dir sg) st2, set_insert dir fd) else (st2, fd))"
  using assms by (simp add: probeDir_def httpGet_def Let_def)

text \<open>
  C1 (as amended). \<open>notRedirect\<close> is false exactly when the probe body contains the text
  \<^verbatim>\<open>http-equiv="refresh"\<close> and contains \<open>baseUrl\<close>, wherever the two occur: the source
  makes two independent substring tests and never looks at the target of the tag. So the
  signal is true for every body without the refresh text and for every body without
  \<open>baseUrl\<close>.
\<close>

theorem notRedirect_iff:
  \<open>notRedirect (classify baseUrl body sig code) \<longleftrightarrow>
     \<not> ((\<exists>pre post. body = pre @ ''http-equiv="refresh"'' @ post) \<and>
        (\<exists>pre post. body = pre @ baseUrl @ post))\<close>
  by (simp add: classify_def found_iff)

theorem notRedirect_iff_witness:
  \<open>notRedirect (classify ''http://h.com'' ''<a href=x>http://h.com</a>'' [] None) \<and>
   \<not> (\<exists>pre post. ''<a href=x>http://h.com</a>'' = pre @ ''http-equiv="refresh"'' @ post)\<close>
proof -
  have \<open>\<not> found ''<a href=x>http://h.com</a>'' ''http-equiv="refresh"''\<close> by code_simp
  then have \<open>\<not> (\<exists>pre post. ''<a href=x>http://h.com</a>'' = pre @ ''http-equiv="refresh"'' @ post)\<close>
    unfolding found_iff .
  with notRedirect_iff [of "''http://h.com''" "''<a href=x>http://h.com</a>''" "[]" None]
  show ?thesis by blast
qed

text \<open>
  C1 as stated fails: in the body below the refresh tag, target included, does not contain
  \<open>baseUrl\<close>, which occurs only in the text after the tag, and \<open>notRedirect\<close> is false.
\<close>

theorem notRedirect_counterexample:
  \<open>\<not> found ''<meta http-equiv="refresh" content="5;url=/login">'' ''http://h.com'' \<and>
   \<not> notRedirect (classify ''http://h.com''
        (''<meta http-equiv="refresh" content="5;url=/login">'' @ ''back to http://h.com'')
        [] None)\<close>
  by code_simp

text \<open>
  C2. For a candidate with a non-empty probe body, the score is the number of true signals
  and the candidate is accepted (inserted into \<open>foundDirs\<close> and reported by an \<open>Ok\<close> line)
  exactly when the score is at least 2. When the first 512 bytes of the body equal the
  baseline signature \<open>not404\<close> is false, and when the other four signals are false too the
  score is 0 and the candidate is not accepted.
\<close>

theorem classify_score_accept:
  "tryUrl = combineUrl baseUrl dir \<and> body = net E (requests st) tryUrl \<and> body \<noteq> [] \<and>
   sg = classify baseUrl body sig (status E (requests st @ [Body tryUrl]) tryUrl) \<longrightarrow>
     score sg =
       length (filter id [not404 sg, statusOk sg, looksLikeDir sg, titleOk sg, notRedirect sg]) \<and>
     snd (probeDir E baseUrl depth sig dir (st, fd)) =
       (if 2 \<le> score sg then set_insert dir fd else fd) \<and>
     printed (fst (probeDir E baseUrl depth sig dir (st, fd))) =
       printed st @ (if 2 \<le> score sg then [Ok depth dir sg] else []) \<and>
     (take 512 body = sig \<longrightarrow> \<not> not404 sg) \<and>
     (take 512 body = sig \<and> \<not> statusOk sg \<and> \<not> looksLikeDir sg \<and> \<not> titleOk sg \<and>
      \<not> notRedirect sg \<longrightarrow>
        score sg = 0 \<and> snd (probeDir E baseUrl depth sig dir (st, fd)) = fd \<and>
        printed (fst (probeDir E baseUrl depth sig dir (st, fd))) = printed st)"
proof (intro impI, elim conjE)
  assume t: "tryUrl = combineUrl baseUrl dir" and b: "body = net E (requests st) tryUrl"
    and ne: "body \<noteq> []"
    and sg: "sg = classify baseUrl body sig (status E (requests st @ [Body tryUrl]) tryUrl)"
  from ne b t have "net E (requests st) (combineUrl baseUrl dir) \<noteq> []" by simp
  note p = probeDir_nonempty [OF this, of depth sig fd]
  have n: "take 512 body = sig \<longrightarrow> \<not> not404 sg" by (simp add: sg classify_def)
  have f: "snd (probeDir E baseUrl depth sig dir (st, fd)) =
       (if 2 \<le> score sg then set_insert dir fd else fd)"
    unfolding p using t b sg by (simp add: Let_def)
  have o: "printed (fst (probeDir E baseUrl depth sig dir (st, fd))) =
       printed st @ (if 2 \<le> score sg then [Ok depth dir sg] else [])"
    unfolding p using t b sg by (simp add: Let_def)
  have z: "take 512 body = sig \<and> \<not> statusOk sg \<and> \<not> looksLikeDir sg \<and> \<not> titleOk sg \<and>
      \<not> notRedirect sg \<longrightarrow> score sg = 0"
    using n by (simp add: score_def)
  show "score sg =
       length (filter id [not404 sg, statusOk sg, looksLikeDir sg, titleOk sg, notRedirect sg]) \<and>
     snd (probeDir E baseUrl depth sig dir (st, fd)) =
       (if 2 \<le> score sg then set_insert dir fd else fd) \<and>
     printed (fst (probeDir E baseUrl depth sig dir (st, fd))) =
       printed st @ (if 2 \<le> score sg then [Ok depth dir sg] else []) \<and>
     (take 512 body = sig \<longrightarrow> \<not> not404 sg) \<and>
     (take 512 body = sig \<and> \<not> statusOk sg \<and> \<not> looksLikeDir sg \<and> \<not> titleOk sg \<and>
      \<not> notRedirect sg \<longrightarrow>
        score sg = 0 \<and> snd (probeDir E baseUrl depth sig dir (st, fd)) = fd \<and>
        printed (fst (probeDir E baseUrl depth sig dir (st, fd))) = printed st)"
    using score_count [of sg] n f o z by simp
qed

theorem classify_score_accept_witness:
  \<open>net E_loop (requests st_init) (combineUrl ''http://h'' ''admin/'') \<noteq> [] \<and>
   score (classify ''http://h'' ''http-equiv="refresh" http://h'' ''http-equiv="refresh" http://h'' None) = 0 \<and>
   snd (probeDir E_loop ''http://h'' 0 ''http-equiv="refresh" http://h'' ''admin/'' (st_init, [])) = [] \<and>
   printed (fst (probeDir E_loop ''http://h'' 0 ''http-equiv="refresh" http://h'' ''admin/'' (st_init, []))) = []\<close>
proof -
  let ?b = \<open>''http-equiv="refresh" http://h''\<close>
  let ?sg = "classify ''http://h'' ?b ?b None"
  have b: "net E_loop (requests st_init) (combineUrl ''http://h'' ''admin/'') = ?b"
    "status E_loop (requests st_init @ [Body (combineUrl ''http://h'' ''admin/'')])
       (combineUrl ''http://h'' ''admin/'') = None"
    by (simp_all add: E_loop_def)
  have s: "\<not> statusOk ?sg" "\<not> looksLikeDir ?sg" "\<not> titleOk ?sg" "\<not> notRedirect ?sg"
    by code_simp+
  have p: "printed st_init = []" by (simp add: st_init_def)
  show ?thesis
    using classify_score_accept [of "combineUrl ''http://h'' ''admin/''" "''http://h''" "''admin/''"
        ?b E_loop st_init ?sg ?b 0 "[]"] b s p
    by simp
qed

lemma set_set_insert [simp]: "set (set_insert x xs) = insert x (set xs)"
  by (auto simp: set_insert_def set_insort_key)

lemma probeDir_other:
  assumes "probeDir E baseUrl depth sig c (st, fd) = (st', fd')"
  shows "set fd' \<subseteq> insert c (set fd)"
    and "\<exists>evs. printed st' = printed st @ evs \<and> (\<forall>e\<in>set evs. \<exists>sg. e = Ok depth c sg)"
proof -
  show "set fd' \<subseteq> insert c (set fd)"
    using assms by (auto simp: probeDir_def httpGet_def Let_def split: if_splits)
  show "\<exists>evs. printed st' = printed st @ evs \<and> (\<forall>e\<in>set evs. \<exists>sg. e = Ok depth c sg)"
    using assms by (auto simp: probeDir_def httpGet_def Let_def split: if_splits)
qed

lemma probeAll_absent:
  assumes "\<forall>h. net E h (combineUrl baseUrl dir) = []" and "dir \<notin> set fd"
  shows "dir \<notin> set (snd (probeAll E baseUrl depth sig cands (st, fd))) \<and>
         (\<forall>sg. Ok depth dir sg \<in> set (printed (fst (probeAll E baseUrl depth sig cands (st, fd)))) \<longrightarrow>
               Ok depth dir sg \<in> set (printed st))"
  using assms(2)
proof (induction cands arbitrary: st fd)
  case Nil
  then show ?case by simp
next
  case (Cons c cands)
  show ?case
  proof (cases "c \<in> set fd")
    case True
    with Cons show ?thesis by simp
  next
    case False
    obtain st' fd' where p: "probeDir E baseUrl depth sig c (st, fd) = (st', fd')"
      by (cases "probeDir E baseUrl depth sig c (st, fd)")
    have all: "probeAll E baseUrl depth sig (c # cands) (st, fd) =
               probeAll E baseUrl depth sig cands (st', fd')"
      using False p by simp
    show ?thesis
    proof (cases "c = dir")
      case True
      with p assms(1) have "fd' = fd" "printed st' = printed st"
        by (auto simp: probeDir_empty)
      with Cons.IH [of fd' st'] Cons.prems all show ?thesis by simp
    next
      case ne: False
      from probeDir_other [OF p] obtain evs where
        fd': "set fd' \<subseteq> insert c (set fd)" and
        evs: "printed st' = printed st @ evs" "\<forall>e\<in>set evs. \<exists>sg. e = Ok depth c sg"
        by blast
      from fd' ne Cons.prems have "dir \<notin> set fd'" by auto
      from Cons.IH [OF this, of st'] evs ne all show ?thesis by auto
    qed
  qed
qed

text \<open>
  C7. A candidate whose probe fetch returns an empty body is not classified: its task issues
  the one request and nothing else, prints nothing and leaves \<open>foundDirs\<close> as it was. A
  candidate whose fetch is always empty, and that is not among the known directories, is
  absent from the found-set after the whole probing loop, and the loop prints no \<open>Ok\<close> line
  for it.
\<close>

theorem empty_probe_absent:
  "(net E (requests st) (combineUrl baseUrl dir) = [] \<longrightarrow>
      probeDir E baseUrl depth sig dir (st, fd) =
        (st\<lparr>requests := requests st @ [Body (combineUrl baseUrl dir)]\<rparr>, fd)) \<and>
   ((\<forall>h. net E h (combineUrl baseUrl dir) = []) \<and> dir \<notin> set fd \<longrightarrow>
      dir \<notin> set (snd (probeAll E baseUrl depth sig cands (st, fd))) \<and>
      (\<forall>sg. Ok depth dir sg \<in> set (printed (fst (probeAll E baseUrl depth sig cands (st, fd)))) \<longrightarrow>
            Ok depth dir sg \<in> set (printed st)))"
  using probeDir_empty [of E st baseUrl dir depth sig fd]
    probeAll_absent [of E baseUrl dir fd depth sig cands st]
  by blast

theorem empty_probe_absent_witness:
  "net E_down (requests st_init) (combineUrl ''http://h'' ''admin/'') = [] \<and>
   probeDir E_down ''http://h'' 0 [] ''admin/'' (st_init, []) =
     (st_init\<lparr>requests := [Body ''http://h/admin/'']\<rparr>, []) \<and>
   ''admin/'' \<notin> set (snd (probeAll E_down ''http://h'' 0 [] commonDirs (st_init, []))) \<and>
   (\<forall>sg. Ok 0 ''admin/'' sg \<notin>
         set (printed (fst (probeAll E_down ''http://h'' 0 [] commonDirs (st_init, [])))))"
proof -
  have n: "\<forall>h. net E_down h (combineUrl ''http://h'' ''admin/'') = []"
    by (simp add: E_down_def)
  have u: "combineUrl ''http://h'' ''admin/'' = ''http://h/admin/''" by code_simp
  have r: "requests st_init = []" "printed st_init = []" by (simp_all add: st_init_def)
  show ?thesis
    using empty_probe_absent [of E_down st_init "''http://h''" "''admin/''" 0 "[]" "[]" commonDirs]
      n u r
    by simp
qed

section \<open>Both caches only grow\<close>

lemma extends_refl [simp]: "extends st st"
  by (simp add: extends_def)

lemma extends_trans: "extends a b \<Longrightarrow> extends b c \<Longrightarrow> extends a c"
  unfolding extends_def by (meson map_le_trans subset_trans)

lemma extends_emit [simp]: "extends st (emit e st)"
  by (simp add: extends_def emit_def)

lemma extends_httpGet: "extends st (snd (httpGet E url st))"
  by (simp add: extends_def httpGet_def)

lemma notFoundSig_hit:
  "notFoundCache st baseUrl = Some v \<Longrightarrow> notFoundSig E baseUrl st = (v, st)"
  by (simp add: notFoundSig_def)

lemma notFoundSig_miss:
  assumes "notFoundCache st baseUrl = None"
  shows "notFoundSig E baseUrl st =
    (let url = combineUrl baseUrl (''__tcli_fake404__'' @ to_string (rands E (randCalls st)) @ ''/'');
         sig = take 512 (net E (requests st) url)
     in (sig, st\<lparr>randCalls := Suc (randCalls st), requests := requests st @ [Body url],
                notFoundCache := (notFoundCache st)(baseUrl \<mapsto> sig)\<rparr>))"
  using assms by (simp add: notFoundSig_def httpGet_def Let_def)

lemma extends_notFoundSig: "extends st (snd (notFoundSig E baseUrl st))"
proof (cases "notFoundCache st baseUrl")
  case None
  then show ?thesis
    by (auto simp: notFoundSig_miss Let_def extends_def map_le_def dom_def)
next
  case (Some v)
  then show ?thesis by (simp add: notFoundSig_hit)
qed

lemma extends_probeDir: "extends st (fst (probeDir E baseUrl depth sig dir (st, fd)))"
  by (simp add: probeDir_def httpGet_def Let_def extends_def emit_def)

lemma extends_probeAll: "extends st (fst (probeAll E baseUrl depth sig cands (st, fd)))"
proof (induction cands arbitrary: st fd)
  case Nil
  show ?case by simp
next
  case (Cons c cands)
  show ?case
  proof (cases "c \<in> set fd")
    case True
    with Cons show ?thesis by simp
  next
    case False
    obtain st' fd' where p: "probeDir E baseUrl depth sig c (st, fd) = (st', fd')"
      by (cases "probeDir E baseUrl depth sig c (st, fd)")
    have "extends st st'" using extends_probeDir [of st E baseUrl depth sig c fd] p by simp
    moreover have "extends st' (fst (probeAll E baseUrl depth sig cands (st', fd')))"
      by (rule Cons.IH)
    ultimately show ?thesis using False p by (auto intro: extends_trans)
  qed
qed

lemma extends_enumLevel: "extends st (fst (enumLevel E baseUrl depth st))"
proof -
  let ?s0 = "emit (Enumerating depth baseUrl) st"
  obtain html st1 where h: "httpGet E baseUrl ?s0 = (html, st1)"
    by (cases "httpGet E baseUrl ?s0")
  have "extends ?s0 st1" using extends_httpGet [of ?s0 E baseUrl] h by simp
  then have e1: "extends st st1" using extends_emit [of st] by (blast intro: extends_trans)
  show ?thesis
  proof (cases "html = []")
    case True
    with h e1 show ?thesis
      by (auto simp: enumLevel_def intro: extends_trans [OF e1])
  next
    case False
    obtain sig st2 where n: "notFoundSig E baseUrl st1 = (sig, st2)"
      by (cases "notFoundSig E baseUrl st1")
    have e2: "extends st1 st2" using extends_notFoundSig [of st1 E baseUrl] n by simp
    obtain st3 fd where p:
      "probeAll E baseUrl depth sig commonDirs (st2, knownDirs (extractLinks html)) = (st3, fd)"
      by (cases "probeAll E baseUrl depth sig commonDirs (st2, knownDirs (extractLinks html))")
    have e3: "extends st2 st3"
      using extends_probeAll [of st2 E baseUrl depth sig commonDirs "knownDirs (extractLinks html)"] p
      by simp
    from e1 e2 e3 have "extends st st3" by (blast intro: extends_trans)
    with h n p False show ?thesis by (simp add: enumLevel_def)
  qed
qed

lemma extends_visitAndCheck: "extends st (snd (visitAndCheck url st))"
  by (auto simp: visitAndCheck_def extends_def)

lemma extends_enum:
  "(\<forall>st'. enumerateDirectories E baseUrl depth maxDepth st = Inr st' \<longrightarrow> extends st st')"
  "extends st (enumChildren E baseUrl dirs depth md st)"
proof (induction E baseUrl depth maxDepth st and E baseUrl dirs depth md st
       rule: enumerateDirectories_enumChildren.induct)
  case (1 E baseUrl depth maxDepth st)
  show ?case
  proof (intro allI impI)
    fix st'
    assume r: "enumerateDirectories E baseUrl depth maxDepth st = Inr st'"
    then obtain md where md: "resolve_depth (max_enum_depth E) maxDepth = Some md"
      by (auto simp: enumerateDirectories.simps split: option.splits)
    show "extends st st'"
    proof (cases "md < int depth")
      case True
      with r md show ?thesis by (simp add: enumerateDirectories.simps)
    next
      case False
      obtain ok st0 where v: "visitAndCheck baseUrl st = (ok, st0)"
        by (cases "visitAndCheck baseUrl st")
      have e0: "extends st st0" using extends_visitAndCheck [of st baseUrl] v by simp
      show ?thesis
      proof (cases ok)
        case False
        with r md v \<open>\<not> md < int depth\<close> e0 show ?thesis
          by (simp add: enumerateDirectories.simps)
      next
        case True
        obtain st1 res where l: "enumLevel E baseUrl depth st0 = (st1, res)"
          by (cases "enumLevel E baseUrl depth st0")
        have e1: "extends st0 st1" using extends_enumLevel [of st0 E baseUrl depth] l by simp
        show ?thesis
        proof (cases res)
          case None
          with r md v True l \<open>\<not> md < int depth\<close> have "st' = st1"
            by (simp add: enumerateDirectories.simps)
          with e0 e1 show ?thesis by (blast intro: extends_trans)
        next
          case (Some fd)
          with r md v True l \<open>\<not> md < int depth\<close>
          have st': "st' = enumChildren E baseUrl fd depth md st1"
            by (simp add: enumerateDirectories.simps)
          have "extends st1 (enumChildren E baseUrl fd depth md st1)"
            using "1.IH" [OF md \<open>\<not> md < int depth\<close> v [symmetric] _ l [symmetric] Some] True
            by simp
          with e0 e1 st' show ?thesis by (blast intro: extends_trans)
        qed
      qed
    qed
  qed
next
  case (2 E baseUrl depth md st)
  show ?case by simp
next
  case (3 E baseUrl dir dirs depth md st)
  let ?u = "combineUrl baseUrl dir" and ?s1 = "emit (DirLine depth dir) st"
  let ?s2 = "case enumerateDirectories E ?u (Suc depth) md ?s1 of Inl e \<Rightarrow> ?s1 | Inr st2 \<Rightarrow> st2"
  have a: "extends st ?s1" by simp
  have b: "extends ?s1 ?s2" using "3.IH"(1) [OF refl refl] by (auto split: sum.splits)
  have c: "extends ?s2 (enumChildren E baseUrl dirs depth md ?s2)"
    using "3.IH"(2) [OF refl refl] .
  have "extends st (enumChildren E baseUrl dirs depth md ?s2)"
    using extends_trans [OF a extends_trans [OF b c]] .
  then show ?case by (simp add: Let_def)
qed

section \<open>Recursive enumerator: depth bound\<close>

lemma prints_refl [simp]: "prints P st st"
  by (simp add: prints_def)

lemma prints_trans: "prints P a b \<Longrightarrow> prints P b c \<Longrightarrow> prints P a c"
  unfolding prints_def by fastforce

lemma prints_mono: "prints P a b \<Longrightarrow> (\<And>d. P d \<Longrightarrow> Q d) \<Longrightarrow> prints Q a b"
  unfolding prints_def by blast

lemma prints_emit: "P (ev_depth e) \<Longrightarrow> prints P st (emit e st)"
  by (simp add: prints_def)








lemma resolve_depth_idem:
  "resolve_depth cfg maxDepth = Some md \<Longrightarrow> resolve_depth cfg md = Some md"
  by (auto simp: resolve_depth_def split: if_splits)



lemma requests_DirLines [simp]:
  "requests (foldl (\<lambda>s d. emit (DirLine depth d) s) st dirs) = requests st"
  by (induction dirs arbitrary: st) simp_all

lemma enum_returns:
  "(\<exists>st'. enumerateDirectories E baseUrl depth maxDepth st = Inr st') \<longleftrightarrow>
   resolve_depth (max_enum_depth E) maxDepth \<noteq> None"
  by (auto simp: enumerateDirectories.simps split: option.splits prod.splits bool.splits)



section \<open>Flat lister: the visited set and the cache play no part\<close>

lemma with_caches_emit: "emit e (with_caches V C n st) = with_caches V C n (emit e st)"
  by (simp add: emit_def with_caches_def)

lemma with_caches_files:
  "foldl (\<lambda>s file. emit (f file) s) (with_caches V C n st) files =
   with_caches V C n (foldl (\<lambda>s file. emit (f file) s) st files)"
  by (induction files arbitrary: st) (simp_all add: with_caches_emit)

lemma with_caches_httpGet:
  "httpGet E url (with_caches V C n st) =
     (fst (httpGet E url st), with_caches V C n (snd (httpGet E url st)))"
  by (simp add: httpGet_def with_caches_def)

lemma listLevel_caches:
  "listLevel E url depth (with_caches V C n st) =
     (with_caches V C n (fst (listLevel E url depth st)), snd (listLevel E url depth st))"
  by (simp add: listLevel_def with_caches_emit with_caches_httpGet with_caches_files
      Let_def case_prod_beta)

lemma list_caches:
  "listGlobalRecursive E url depth maxDepth (with_caches V C n st) =
     map_sum id (with_caches V C n) (listGlobalRecursive E url depth maxDepth st)"
  "listChildren E url dirs depth md (with_caches V C n st) =
     with_caches V C n (listChildren E url dirs depth md st)"
proof (induction E url depth maxDepth st and E url dirs depth md st
       rule: listGlobalRecursive_listChildren.induct)
  case (1 E url depth maxDepth st)
  show ?case
  proof (cases "resolve_depth (max_list_depth E) maxDepth")
    case None
    then show ?thesis by (simp add: listGlobalRecursive.simps)
  next
    case (Some md)
    show ?thesis
    proof (cases "md < int depth")
      case True
      with Some show ?thesis by (simp add: listGlobalRecursive.simps)
    next
      case False
      obtain st1 res where l: "listLevel E url depth st = (st1, res)"
        by (cases "listLevel E url depth st")
      then have l': "listLevel E url depth (with_caches V C n st) = (with_caches V C n st1, res)"
        by (simp add: listLevel_caches)
      show ?thesis
      proof (cases res)
        case None
        with Some False l l' show ?thesis by (simp add: listGlobalRecursive.simps)
      next
        case (Some dirs)
        from "1.IH" [OF \<open>resolve_depth (max_list_depth E) maxDepth = Some md\<close> False
            l [symmetric] Some]
        have "listChildren E url dirs depth md (with_caches V C n st1) =
              with_caches V C n (listChildren E url dirs depth md st1)" .
        with \<open>resolve_depth (max_list_depth E) maxDepth = Some md\<close> False l l' Some
        show ?thesis by (simp add: listGlobalRecursive.simps)
      qed
    qed
  qed
next
  case (2 E url depth md st)
  show ?case by simp
next
  case (3 E url dir dirs depth md st)
  let ?u = "combineUrl url dir" and ?s1 = "emit (DirLine depth dir) st"
  let ?s2 = "case listGlobalRecursive E ?u (Suc depth) md ?s1 of Inl e \<Rightarrow> ?s1 | Inr st2 \<Rightarrow> st2"
  have a: "(case listGlobalRecursive E ?u (Suc depth) md (with_caches V C n ?s1) of
              Inl e \<Rightarrow> with_caches V C n ?s1 | Inr st2 \<Rightarrow> st2) = with_caches V C n ?s2"
    using "3.IH"(1) [OF refl refl] by (cases "listGlobalRecursive E ?u (Suc depth) md ?s1") simp_all
  have b: "listChildren E url dirs depth md (with_caches V C n ?s2) =
           with_caches V C n (listChildren E url dirs depth md ?s2)"
    using "3.IH"(2) [OF refl refl] .
  show ?case using a b by (simp add: Let_def with_caches_emit)
qed

lemma with_caches_own:
  "with_caches (staticVisited st) (notFoundCache st) (randCalls st) st = st"
  by (simp add: with_caches_def)

lemma list_frame:
  assumes "listGlobalRecursive E url depth maxDepth st = Inr st'"
  shows "staticVisited st' = staticVisited st" "notFoundCache st' = notFoundCache st"
    "randCalls st' = randCalls st"
proof -
  have "listGlobalRecursive E url depth maxDepth st =
        map_sum id (with_caches (staticVisited st) (notFoundCache st) (randCalls st))
          (listGlobalRecursive E url depth maxDepth st)"
    using list_caches(1) [of E url depth maxDepth "staticVisited st" "notFoundCache st"
        "randCalls st" st] by (simp add: with_caches_own)
  with assms have "st' = with_caches (staticVisited st) (notFoundCache st) (randCalls st) st'"
    by simp
  then have "staticVisited st' = staticVisited st \<and> notFoundCache st' = notFoundCache st \<and>
             randCalls st' = randCalls st"
    by (metis (no_types) with_caches_def pstate.select_convs(1,2,3) pstate.surjective
        pstate.update_convs(1,2,3))
  then show "staticVisited st' = staticVisited st" "notFoundCache st' = notFoundCache st"
    "randCalls st' = randCalls st" by simp_all
qed

section \<open>Baseline signature cache\<close>

lemma lookups_count:
  "length (requests (lookups E urls st)) =
     length (requests st) + card (set urls - dom (notFoundCache st))"
proof (induction urls arbitrary: st)
  case Nil
  show ?case by simp
next
  case (Cons u us)
  show ?case
  proof (cases "notFoundCache st u")
    case None
    let ?st' = "snd (notFoundSig E u st)"
    have r: "length (requests ?st') = Suc (length (requests st))"
      and d: "dom (notFoundCache ?st') = insert u (dom (notFoundCache st))"
      using None by (simp_all add: notFoundSig_miss Let_def)
    have "u \<notin> dom (notFoundCache st)" using None by auto
    then have "set (u # us) - dom (notFoundCache st) =
               insert u (set us - insert u (dom (notFoundCache st)))" by auto
    moreover have "u \<notin> set us - insert u (dom (notFoundCache st))" by simp
    ultimately have "card (set (u # us) - dom (notFoundCache st)) =
                     Suc (card (set us - insert u (dom (notFoundCache st))))"
      by (simp del: set_simps)
    with Cons.IH [of ?st'] r d show ?thesis by simp
  next
    case (Some v)
    then have "set (u # us) - dom (notFoundCache st) = set us - dom (notFoundCache st)"
      by auto
    with Cons.IH [of st] Some show ?thesis by (simp add: notFoundSig_hit del: set_simps)
  qed
qed

text \<open>
  C4. The lookup of the baseline signature is one step under the lock. On a miss it issues
  exactly one request, for the nonce path under \<open>baseUrl\<close>, and stores the first 512 bytes
  of the body (all of it when shorter, the empty string when the fetch gave nothing) under
  \<open>baseUrl\<close>; the lookup that follows returns the stored value and changes nothing. On a hit
  it returns the stored value without a request. Over any sequence of lookups the number of
  requests is the number of distinct URLs not cached at the start, and neither crawler ever
  changes or removes a stored signature.
\<close>

theorem baseline_cached_once:
  "(notFoundCache st baseUrl = None \<and>
    url = combineUrl baseUrl (''__tcli_fake404__'' @ to_string (rands E (randCalls st)) @ ''/'') \<and>
    body = net E (requests st) url \<longrightarrow>
      fst (notFoundSig E baseUrl st) = take 512 body \<and>
      length (take 512 body) = min 512 (length body) \<and>
      requests (snd (notFoundSig E baseUrl st)) = requests st @ [Body url] \<and>
      notFoundCache (snd (notFoundSig E baseUrl st)) = (notFoundCache st)(baseUrl \<mapsto> take 512 body) \<and>
      notFoundSig E' baseUrl (snd (notFoundSig E baseUrl st)) =
        (take 512 body, snd (notFoundSig E baseUrl st))) \<and>
   (notFoundCache st baseUrl = Some v \<longrightarrow> notFoundSig E baseUrl st = (v, st)) \<and>
   length (requests (lookups E urls st)) =
     length (requests st) + card (set urls - dom (notFoundCache st)) \<and>
   (notFoundCache st baseUrl = Some v \<longrightarrow>
      (\<forall>st'. enumerateDirectories E u depth maxDepth st = Inr st' \<longrightarrow>
             notFoundCache st' baseUrl = Some v) \<and>
      (\<forall>st'. listGlobalRecursive E u depth maxDepth st = Inr st' \<longrightarrow>
             notFoundCache st' baseUrl = Some v))"
proof (intro conjI impI allI)
  assume a: "notFoundCache st baseUrl = None \<and>
    url = combineUrl baseUrl (''__tcli_fake404__'' @ to_string (rands E (randCalls st)) @ ''/'') \<and>
    body = net E (requests st) url"
  then show "fst (notFoundSig E baseUrl st) = take 512 body"
    "requests (snd (notFoundSig E baseUrl st)) = requests st @ [Body url]"
    "notFoundCache (snd (notFoundSig E baseUrl st)) = (notFoundCache st)(baseUrl \<mapsto> take 512 body)"
    by (simp_all add: notFoundSig_miss Let_def)
  then show "notFoundSig E' baseUrl (snd (notFoundSig E baseUrl st)) =
        (take 512 body, snd (notFoundSig E baseUrl st))"
    by (simp add: notFoundSig_hit)
  show "length (take 512 body) = min 512 (length body)" by simp
next
  assume "notFoundCache st baseUrl = Some v"
  then show "notFoundSig E baseUrl st = (v, st)" by (rule notFoundSig_hit)
next
  show "length (requests (lookups E urls st)) =
     length (requests st) + card (set urls - dom (notFoundCache st))"
    by (rule lookups_count)
next
  fix st'
  assume v: "notFoundCache st baseUrl = Some v"
    and "enumerateDirectories E u depth maxDepth st = Inr st'"
  then have "extends st st'" using extends_enum(1) by blast
  with v show "notFoundCache st' baseUrl = Some v"
    unfolding extends_def map_le_def by (metis domI)
next
  fix st'
  assume v: "notFoundCache st baseUrl = Some v"
    and "listGlobalRecursive E u depth maxDepth st = Inr st'"
  then show "notFoundCache st' baseUrl = Some v" using list_frame(2) by metis
qed

theorem baseline_cached_once_witness:
  "notFoundCache st_init ''http://h'' = None \<and>
   fst (notFoundSig E_down ''http://h'' st_init) = [] \<and>
   requests (snd (notFoundSig E_down ''http://h'' st_init)) = [Body ''http://h/__tcli_fake404__0/''] \<and>
   notFoundCache (snd (notFoundSig E_down ''http://h'' st_init)) ''http://h'' = Some [] \<and>
   notFoundSig E_docs ''http://h'' (snd (notFoundSig E_down ''http://h'' st_init)) =
     ([], snd (notFoundSig E_down ''http://h'' st_init)) \<and>
   (\<exists>st'. enumerateDirectories E_down ''http://g'' 0 0 (snd (notFoundSig E_down ''http://h'' st_init)) =
            Inr st' \<and> notFoundCache st' ''http://h'' = Some [])"
proof -
  let ?u = "''http://h''" and ?url = "''http://h/__tcli_fake404__0/''"
  let ?s1 = "snd (notFoundSig E_down ?u st_init)"
  have n: "notFoundCache st_init ?u = None" by (simp add: st_init_def)
  have url: "?url = combineUrl ?u (''__tcli_fake404__'' @ to_string (rands E_down (randCalls st_init)) @ ''/'')"
    by code_simp
  have body: "[] = net E_down (requests st_init) ?url" by (simp add: E_down_def)
  note t = baseline_cached_once [where st = st_init and baseUrl = ?u and url = ?url
      and E = E_down and body = "[]" and E' = E_docs]
  from t n url body have a: "fst (notFoundSig E_down ?u st_init) = []"
    "requests ?s1 = requests st_init @ [Body ?url]"
    "notFoundCache ?s1 = (notFoundCache st_init)(?u \<mapsto> [])"
    "notFoundSig E_docs ?u ?s1 = ([], ?s1)"
    by simp_all
  from a(3) have c: "notFoundCache ?s1 ?u = Some []" by simp
  obtain st' where st': "enumerateDirectories E_down ''http://g'' 0 0 ?s1 = Inr st'"
    using enum_returns [of E_down "''http://g''" 0 0 ?s1]
    by (auto simp: resolve_depth_def)
  have "notFoundCache st' ?u = Some []"
    using baseline_cached_once [where st = ?s1 and baseUrl = ?u and v = "[]" and E = E_down
        and u = "''http://g''" and depth = 0 and maxDepth = 0] c st'
    by blast
  with n a c st' show ?thesis by (auto simp: st_init_def)
qed

section \<open>Visited set\<close>

lemma visitAndCheck_eq:
  "visitAndCheck u st = (u \<notin> staticVisited st, st\<lparr>staticVisited := insert u (staticVisited st)\<rparr>)"
  by (simp add: visitAndCheck_def insert_absorb)

lemma length_visits [simp]: "length (visits urls st) = length urls"
  by (induction urls arbitrary: st) simp_all

lemma visits_nth:
  "i < length urls \<Longrightarrow>
   visits urls st ! i = (urls ! i \<notin> staticVisited st \<and> urls ! i \<notin> set (take i urls))"
proof (induction urls arbitrary: st i)
  case Nil
  then show ?case by simp
next
  case (Cons u us)
  show ?case
  proof (cases i)
    case 0
    then show ?thesis by (simp add: visitAndCheck_eq)
  next
    case (Suc j)
    with Cons.prems have "j < length us" by simp
    from Cons.IH [OF this, of "snd (visitAndCheck u st)"] Suc
    show ?thesis by (auto simp: visitAndCheck_eq)
  qed
qed

lemma enum_visited_noop:
  "baseUrl \<in> staticVisited st \<Longrightarrow> enumerateDirectories E baseUrl depth maxDepth st = Inr st' \<Longrightarrow>
   st' = st"
  by (auto simp: enumerateDirectories.simps visitAndCheck_def split: option.splits if_splits)

lemma exec_extends: "exec c st = Some st' \<Longrightarrow> extends st st'"
proof (cases c)
  case (CmdEnum E u)
  assume "exec c st = Some st'"
  with CmdEnum show ?thesis
    using extends_enum(1) [of E u 0 "- 1" st]
    by (auto split: if_splits sum.splits)
next
  case (CmdListGlobal E u)
  assume "exec c st = Some st'"
  with CmdListGlobal show ?thesis
    using list_frame [of E u 0 "- 1" st st']
    by (auto simp: extends_def split: if_splits sum.splits)
qed

lemma run_extends: "run cs st = Some st' \<Longrightarrow> extends st st'"
proof (induction cs arbitrary: st)
  case Nil
  then show ?case by simp
next
  case (Cons c cs)
  then obtain s where "exec c st = Some s" "run cs s = Some st'"
    by (auto split: option.splits)
  with Cons.IH [of s] exec_extends [of c st s] show ?case by (blast intro: extends_trans)
qed

text \<open>
  C5 (as amended). \<open>visitAndCheck\<close> tests and inserts in one step: it returns true exactly
  when the URL is not yet in the set, and the URL is in the set afterwards. In any sequence
  of calls, call \<open>i\<close> returns true exactly when its URL was not in the set at the start and
  is not the URL of an earlier call: for each URL the first call ever made returns true and
  every later one false. The set is the static of the process, not one per crawl, so in a
  crawl that follows another one in the same process no call returns true for a URL the
  earlier crawl visited. \<open>enumerateDirectories\<close> on a visited URL returns the state it was
  given, and neither crawler, nor any sequence of commands, removes a URL from the set.
\<close>

theorem visited_first_call_only:
  "visitAndCheck u st =
     (u \<notin> staticVisited st, st\<lparr>staticVisited := insert u (staticVisited st)\<rparr>) \<and>
   (i < length urls \<longrightarrow>
      visits urls st ! i = (urls ! i \<notin> staticVisited st \<and> urls ! i \<notin> set (take i urls))) \<and>
   (u \<in> staticVisited st \<longrightarrow>
      (\<forall>st'. enumerateDirectories E u depth maxDepth st = Inr st' \<longrightarrow> st' = st)) \<and>
   (\<forall>st'. enumerateDirectories E u depth maxDepth st = Inr st' \<longrightarrow>
          staticVisited st \<subseteq> staticVisited st') \<and>
   (\<forall>st'. listGlobalRecursive E u depth maxDepth st = Inr st' \<longrightarrow>
          staticVisited st' = staticVisited st) \<and>
   (\<forall>st'. run cmds st = Some st' \<longrightarrow> staticVisited st \<subseteq> staticVisited st')"
proof (intro conjI impI allI)
  show "visitAndCheck u st =
     (u \<notin> staticVisited st, st\<lparr>staticVisited := insert u (staticVisited st)\<rparr>)"
    by (rule visitAndCheck_eq)
next
  assume "i < length urls"
  then show "visits urls st ! i = (urls ! i \<notin> staticVisited st \<and> urls ! i \<notin> set (take i urls))"
    by (rule visits_nth)
next
  fix st'
  assume "u \<in> staticVisited st" "enumerateDirectories E u depth maxDepth st = Inr st'"
  then show "st' = st" by (rule enum_visited_noop)
next
  fix st'
  assume "enumerateDirectories E u depth maxDepth st = Inr st'"
  then show "staticVisited st \<subseteq> staticVisited st'"
    using extends_enum(1) [of E u depth maxDepth st] by (simp add: extends_def)
next
  fix st'
  assume "listGlobalRecursive E u depth maxDepth st = Inr st'"
  then show "staticVisited st' = staticVisited st" by (rule list_frame(1))
next
  fix st'
  assume "run cmds st = Some st'"
  then show "staticVisited st \<subseteq> staticVisited st'"
    using run_extends [of cmds st st'] by (simp add: extends_def)
qed

lemma enum_failed_fetch:
  assumes "resolve_depth (max_enum_depth E) maxDepth = Some md" and "int depth \<le> md"
    and "baseUrl \<notin> staticVisited st" and "net E (requests st) baseUrl = []"
  shows "enumerateDirectories E baseUrl depth maxDepth st =
     Inr (st\<lparr>staticVisited := insert baseUrl (staticVisited st),
              requests := requests st @ [Body baseUrl],
              printed := printed st @ [Enumerating depth baseUrl, NoResponse depth]\<rparr>)"
  using assms
  by (simp add: enumerateDirectories.simps visitAndCheck_def enumLevel_def httpGet_def emit_def)

lemma down_crawl: "run [CmdEnum E_down ''http://h''] st_init = Some st_failed"
proof -
  have "enumerateDirectories E_down ''http://h'' 0 (- 1) st_init = Inr st_failed"
    by (subst enum_failed_fetch [where md = 3])
       (simp_all add: resolve_depth_def E_down_def st_init_def st_failed_def)
  then show ?thesis by simp
qed

text \<open>
  C5 as stated fails for the second crawl of a process: after a first crawl of
  \<^verbatim>\<open>http://h\<close>, the only \<open>visitAndCheck\<close> call of the second crawl of \<^verbatim>\<open>http://h\<close>
  returns false, so in that crawl no call returns true.
\<close>

theorem visited_first_call_only_counterexample:
  "run [CmdEnum E_down ''http://h''] st_init = Some st_failed \<and>
   visits [''http://h''] st_failed = [False] \<and>
   enumerateDirectories E_down ''http://h'' 0 (- 1) st_failed = Inr st_failed"
proof -
  have v: "''http://h'' \<in> staticVisited st_failed" by (simp add: st_failed_def)
  then have "visits [''http://h''] st_failed = [False]" by (simp add: visitAndCheck_def)
  moreover have "enumerateDirectories E_down ''http://h'' 0 (- 1) st_failed = Inr st_failed"
    using v by (simp add: enumerateDirectories.simps visitAndCheck_def resolve_depth_def E_down_def)
  ultimately show ?thesis using down_crawl by simp
qed

theorem visited_first_call_only_witness:
  "visits [''a'', ''b'', ''a''] st_init = [True, True, False] \<and>
   visits [''a'', ''b'', ''a''] st_init ! 2 =
     (''a'' \<notin> staticVisited st_init \<and> ''a'' \<notin> set (take 2 [''a'', ''b'', ''a''])) \<and>
   ''http://h'' \<in> staticVisited st_failed \<and>
   enumerateDirectories E_down ''http://h'' 0 (- 1) st_failed = Inr st_failed \<and>
   run [CmdEnum E_down ''http://h''] st_init = Some st_failed \<and>
   staticVisited st_init \<subseteq> staticVisited st_failed"
proof -
  have a: "visits [''a'', ''b'', ''a''] st_init = [True, True, False]"
    by (simp add: visitAndCheck_def st_init_def)
  have v: "''http://h'' \<in> staticVisited st_failed" by (simp add: st_failed_def)
  have e: "enumerateDirectories E_down ''http://h'' 0 (- 1) st_failed = Inr st_failed"
    using v by (simp add: enumerateDirectories.simps visitAndCheck_def resolve_depth_def E_down_def)
  note t = visited_first_call_only [where urls = "[''a'', ''b'', ''a'']" and i = 2
      and st = st_init and cmds = "[CmdEnum E_down ''http://h'']"]
  note t' = visited_first_call_only [where u = "''http://h''" and st = st_failed and E = E_down
      and depth = 0 and maxDepth = "- 1"]
  have len: "2 < length [''a'', ''b'', ''a'']" by simp
  have "visits [''a'', ''b'', ''a''] st_init ! 2 =
     ([''a'', ''b'', ''a''] ! 2 \<notin> staticVisited st_init \<and>
      [''a'', ''b'', ''a''] ! 2 \<notin> set (take 2 [''a'', ''b'', ''a'']))"
    using t [THEN conjunct2, THEN conjunct1, rule_format, OF len] .
  then have "visits [''a'', ''b'', ''a''] st_init ! 2 =
     (''a'' \<notin> staticVisited st_init \<and> ''a'' \<notin> set (take 2 [''a'', ''b'', ''a'']))"
    by simp
  moreover from t down_crawl have "staticVisited st_init \<subseteq> staticVisited st_failed" by blast
  moreover from t' v e have "enumerateDirectories E_down ''http://h'' 0 (- 1) st_failed = Inr st_failed"
    by blast
  ultimately show ?thesis using a v down_crawl by blast
qed

lemma exec_visited_noop:
  "baseUrl \<in> staticVisited st \<Longrightarrow> exec (CmdEnum E baseUrl) st = Some st' \<Longrightarrow> st' = st"
  by (auto split: if_splits sum.splits dest: enum_visited_noop)

text \<open>
  C10. \<open>enumerateDirectories\<close> inserts \<open>baseUrl\<close> into the visited set before it fetches:
  when the fetch returns nothing, the call prints its two lines and returns with \<open>baseUrl\<close>
  marked visited. The set is a static of the process, so after any later sequence of
  commands \<open>baseUrl\<close> is still in it, and every later enumeration of that URL string, a
  new top-level command included, returns the state it was given: no request, no line, no
  retry.
\<close>

theorem failed_fetch_stays_visited:
  "resolve_depth (max_enum_depth E) maxDepth = Some md \<and> int depth \<le> md \<and>
   baseUrl \<notin> staticVisited st \<and> net E (requests st) baseUrl = [] \<longrightarrow>
     enumerateDirectories E baseUrl depth maxDepth st =
       Inr (st\<lparr>staticVisited := insert baseUrl (staticVisited st),
                requests := requests st @ [Body baseUrl],
                printed := printed st @ [Enumerating depth baseUrl, NoResponse depth]\<rparr>) \<and>
     (\<forall>st1 st2. enumerateDirectories E baseUrl depth maxDepth st = Inr st1 \<and>
                run cmds st1 = Some st2 \<longrightarrow>
        baseUrl \<in> staticVisited st2 \<and>
        (\<forall>st3. enumerateDirectories E' baseUrl d m st2 = Inr st3 \<longrightarrow> st3 = st2) \<and>
        (\<forall>st3. exec (CmdEnum E' baseUrl) st2 = Some st3 \<longrightarrow> st3 = st2))"
proof (intro impI, elim conjE)
  assume a: "resolve_depth (max_enum_depth E) maxDepth = Some md" "int depth \<le> md"
    "baseUrl \<notin> staticVisited st" "net E (requests st) baseUrl = []"
  note r = enum_failed_fetch [OF a]
  have "\<forall>st1 st2. enumerateDirectories E baseUrl depth maxDepth st = Inr st1 \<and>
                run cmds st1 = Some st2 \<longrightarrow>
        baseUrl \<in> staticVisited st2 \<and>
        (\<forall>st3. enumerateDirectories E' baseUrl d m st2 = Inr st3 \<longrightarrow> st3 = st2) \<and>
        (\<forall>st3. exec (CmdEnum E' baseUrl) st2 = Some st3 \<longrightarrow> st3 = st2)"
  proof (intro allI impI, elim conjE)
    fix st1 st2
    assume "enumerateDirectories E baseUrl depth maxDepth st = Inr st1" "run cmds st1 = Some st2"
    with r have "baseUrl \<in> staticVisited st1" "extends st1 st2"
      by (auto dest: run_extends)
    then have v: "baseUrl \<in> staticVisited st2" by (auto simp: extends_def)
    then show "baseUrl \<in> staticVisited st2 \<and>
        (\<forall>st3. enumerateDirectories E' baseUrl d m st2 = Inr st3 \<longrightarrow> st3 = st2) \<and>
        (\<forall>st3. exec (CmdEnum E' baseUrl) st2 = Some st3 \<longrightarrow> st3 = st2)"
      using enum_visited_noop [OF v] exec_visited_noop [OF v] by blast
  qed
  with r show "enumerateDirectories E baseUrl depth maxDepth st =
       Inr (st\<lparr>staticVisited := insert baseUrl (staticVisited st),
                requests := requests st @ [Body baseUrl],
                printed := printed st @ [Enumerating depth baseUrl, NoResponse depth]\<rparr>) \<and>
     (\<forall>st1 st2. enumerateDirectories E baseUrl depth maxDepth st = Inr st1 \<and>
                run cmds st1 = Some st2 \<longrightarrow>
        baseUrl \<in> staticVisited st2 \<and>
        (\<forall>st3. enumerateDirectories E' baseUrl d m st2 = Inr st3 \<longrightarrow> st3 = st2) \<and>
        (\<forall>st3. exec (CmdEnum E' baseUrl) st2 = Some st3 \<longrightarrow> st3 = st2))"
    by blast
qed

theorem failed_fetch_stays_visited_witness:
  "resolve_depth (max_enum_depth E_down) (- 1) = Some 3 \<and> int 0 \<le> 3 \<and>
   ''http://h'' \<notin> staticVisited st_init \<and> net E_down (requests st_init) ''http://h'' = [] \<and>
   enumerateDirectories E_down ''http://h'' 0 (- 1) st_init = Inr st_failed \<and>
   run [CmdListGlobal E_down ''http://h''] st_failed = Some st_listed \<and>
   ''http://h'' \<in> staticVisited st_listed \<and>
   enumerateDirectories E_docs ''http://h'' 0 (- 1) st_listed = Inr st_listed \<and>
   exec (CmdEnum E_docs ''http://h'') st_listed = Some st_listed"
proof -
  have h: "resolve_depth (max_enum_depth E_down) (- 1) = Some 3" "int 0 \<le> 3"
    "''http://h'' \<notin> staticVisited st_init" "net E_down (requests st_init) ''http://h'' = []"
    by (simp_all add: resolve_depth_def E_down_def st_init_def)
  have l: "run [CmdListGlobal E_down ''http://h''] st_failed = Some st_listed"
    by (simp add: listGlobalRecursive.simps resolve_depth_def E_down_def listLevel_def
        httpGet_def emit_def st_failed_def st_listed_def)
  have e: "\<exists>st3. enumerateDirectories E_docs ''http://h'' 0 (- 1) st_listed = Inr st3"
    by (simp add: enum_returns resolve_depth_def E_docs_def)
  note t = failed_fetch_stays_visited [where E = E_down and maxDepth = "- 1" and md = 3
      and depth = 0 and baseUrl = "''http://h''" and st = st_init
      and cmds = "[CmdListGlobal E_down ''http://h'']" and E' = E_docs and d = 0 and m = "- 1"]
  from t h have r: "enumerateDirectories E_down ''http://h'' 0 (- 1) st_init = Inr st_failed"
    by (simp add: st_failed_def st_init_def)
  from t h r l have v: "''http://h'' \<in> staticVisited st_listed"
    and n: "\<forall>st3. enumerateDirectories E_docs ''http://h'' 0 (- 1) st_listed = Inr st3 \<longrightarrow>
                  st3 = st_listed"
    by blast+
  from e n have e': "enumerateDirectories E_docs ''http://h'' 0 (- 1) st_listed = Inr st_listed"
    by blast
  then have "exec (CmdEnum E_docs ''http://h'') st_listed = Some st_listed" by simp
  with h r l v e' show ?thesis by blast
qed

section \<open>Flat lister: depth bound\<close>

lemma partition_links_eq: "partition_links links = (filter is_dir links, filter is_file links)"
  by (induction links) (auto simp: is_dir_def is_file_def Let_def)

lemma foldl_emit:
  "foldl (\<lambda>s x. emit (f x) s) st xs = st\<lparr>printed := printed st @ map f xs\<rparr>"
  by (induction xs arbitrary: st) (simp_all add: emit_def)

lemma listLevel_page:
  assumes "page = net E (requests st) url" "page \<noteq> []" "links = extractLinks page"
    "filter is_dir links \<noteq> [] \<or> filter is_file links \<noteq> []"
  shows "listLevel E url depth st =
     (st\<lparr>requests := requests st @ [Body url],
         printed := printed st @ Listing depth url #
                    map (\<lambda>f. FileLine depth (file_colour f) f) (filter is_file links)\<rparr>,
      Some (filter is_dir links))"
proof -
  from assms(4) have "links \<noteq> []" by auto
  with assms have "listLevel E url depth st =
     (foldl (\<lambda>s file. emit (FileLine depth (file_colour file) file) s)
        (snd (httpGet E url (emit (Listing depth url) st))) (filter is_file links),
      Some (filter is_dir links))"
    by (auto simp: listLevel_def httpGet_def partition_links_eq Let_def)
  then show ?thesis unfolding foldl_emit by (simp add: httpGet_def emit_def)
qed

lemma prints_files:
  "prints (\<lambda>d. d = depth) st (foldl (\<lambda>s file. emit (FileLine depth (file_colour file) file) s) st files)"
  by (simp add: foldl_emit prints_def)

lemma printed_files:
  "printed (foldl (\<lambda>s file. emit (FileLine depth (file_colour file) file) s) st files) =
     printed st @ map (\<lambda>f. FileLine depth (file_colour f) f) files"
  by (simp add: foldl_emit)

lemma requests_files [simp]:
  "requests (foldl (\<lambda>s file. emit (FileLine depth (file_colour file) file) s) st files) =
     requests st"
  by (simp add: foldl_emit)

lemma prints_listLevel: "prints (\<lambda>d. d = depth) st (fst (listLevel E url depth st))"
  by (auto simp: listLevel_def httpGet_def Let_def printed_files prints_def
      split: prod.splits)

lemma requests_listLevel:
  "requests (fst (listLevel E url depth st)) = requests st @ [Body url]"
  by (auto simp: listLevel_def httpGet_def Let_def split: prod.splits)

lemma list_depth_gt:
  "resolve_depth (max_list_depth E) maxDepth = Some md \<Longrightarrow> md < int depth \<Longrightarrow>
   listGlobalRecursive E url depth maxDepth st = Inr st"
  by (simp add: listGlobalRecursive.simps)

lemma list_returns:
  "(\<exists>st'. listGlobalRecursive E url depth maxDepth st = Inr st') \<longleftrightarrow>
   resolve_depth (max_list_depth E) maxDepth \<noteq> None"
  by (auto simp: listGlobalRecursive.simps split: option.splits prod.splits)

lemma fetches_refl [simp]: "fetches st st"
  unfolding fetches_def by (intro exI [of _ "[]"]) simp

lemma fetches_trans: "fetches a b \<Longrightarrow> fetches b c \<Longrightarrow> fetches a c"
  unfolding fetches_def
proof -
  assume "\<exists>us. requests b = requests a @ map Body us" "\<exists>us. requests c = requests b @ map Body us"
  then obtain us vs where "requests b = requests a @ map Body us"
    "requests c = requests b @ map Body vs" by blast
  then have "requests c = requests a @ map Body (us @ vs)" by simp
  then show "\<exists>us. requests c = requests a @ map Body us" by blast
qed

lemma fetches_emit [simp]: "fetches st (emit e st)"
  unfolding fetches_def by (intro exI [of _ "[]"]) simp

lemma fetches_listLevel: "fetches st (fst (listLevel E url depth st))"
  unfolding fetches_def by (intro exI [of _ "[url]"]) (simp add: requests_listLevel)

lemma prints_list:
  "(\<forall>st' md. resolve_depth (max_list_depth E) maxDepth = Some md \<and>
       listGlobalRecursive E url depth maxDepth st = Inr st' \<longrightarrow>
       prints (\<lambda>d. depth \<le> d \<and> int d \<le> md) st st' \<and> fetches st st')"
  "prints (\<lambda>d. depth \<le> d \<and>
             (d = depth \<or> (\<exists>md'. resolve_depth (max_list_depth E) md = Some md' \<and> int d \<le> md')))
     st (listChildren E url dirs depth md st) \<and>
   fetches st (listChildren E url dirs depth md st)"
proof (induction E url depth maxDepth st and E url dirs depth md st
       rule: listGlobalRecursive_listChildren.induct)
  case (1 E url depth maxDepth st)
  show ?case
  proof (intro allI impI, elim conjE)
    fix st' md
    assume md: "resolve_depth (max_list_depth E) maxDepth = Some md"
      and r: "listGlobalRecursive E url depth maxDepth st = Inr st'"
    let ?P = "\<lambda>d. depth \<le> d \<and> int d \<le> md"
    show "prints ?P st st' \<and> fetches st st'"
    proof (cases "md < int depth")
      case True
      with r md show ?thesis by (simp add: listGlobalRecursive.simps)
    next
      case False
      then have own: "\<And>a b. prints (\<lambda>d. d = depth) a b \<Longrightarrow> prints ?P a b"
        by (auto elim: prints_mono)
      obtain st1 res where l: "listLevel E url depth st = (st1, res)"
        by (cases "listLevel E url depth st")
      have e1: "prints ?P st st1"
        using own [OF prints_listLevel [of depth st E url]] l by simp
      have f1: "fetches st st1" using fetches_listLevel [of st E url depth] l by simp
      show ?thesis
      proof (cases res)
        case None
        with r md l False have "st' = st1" by (simp add: listGlobalRecursive.simps)
        with e1 f1 show ?thesis by simp
      next
        case (Some ds)
        with r md l False have st': "st' = listChildren E url ds depth md st1"
          by (simp add: listGlobalRecursive.simps)
        have ih: "prints (\<lambda>d. depth \<le> d \<and>
             (d = depth \<or> (\<exists>md'. resolve_depth (max_list_depth E) md = Some md' \<and> int d \<le> md')))
             st1 (listChildren E url ds depth md st1) \<and>
             fetches st1 (listChildren E url ds depth md st1)"
          using "1.IH" [OF md False l [symmetric] Some] .
        then have e2: "prints ?P st1 (listChildren E url ds depth md st1)"
          using resolve_depth_idem [OF md] False by (auto elim!: prints_mono)
        show ?thesis
          using prints_trans [OF e1 e2] fetches_trans [OF f1] ih st' by simp
      qed
    qed
  qed
next
  case (2 E url depth md st)
  show ?case by simp
next
  case (3 E url dir dirs depth md st)
  let ?Q = "\<lambda>d. depth \<le> d \<and>
             (d = depth \<or> (\<exists>md'. resolve_depth (max_list_depth E) md = Some md' \<and> int d \<le> md'))"
  let ?u = "combineUrl url dir" and ?s1 = "emit (DirLine depth dir) st"
  let ?s2 = "case listGlobalRecursive E ?u (Suc depth) md ?s1 of Inl e \<Rightarrow> ?s1 | Inr st2 \<Rightarrow> st2"
  have a: "prints ?Q st ?s1" "fetches st ?s1" by (simp_all add: prints_emit)
  have b: "prints ?Q ?s1 ?s2 \<and> fetches ?s1 ?s2"
  proof (cases "listGlobalRecursive E ?u (Suc depth) md ?s1")
    case (Inl e)
    then show ?thesis by simp
  next
    case (Inr st2)
    then obtain md' where md': "resolve_depth (max_list_depth E) md = Some md'"
      by (auto simp: listGlobalRecursive.simps split: option.splits)
    from "3.IH"(1) [OF refl refl] md' Inr
    have p: "prints (\<lambda>d. Suc depth \<le> d \<and> int d \<le> md') ?s1 st2" and f: "fetches ?s1 st2"
      by blast+
    from p have "prints ?Q ?s1 st2" using md' by (auto elim!: prints_mono)
    with f Inr show ?thesis by simp
  qed
  have c: "prints ?Q ?s2 (listChildren E url dirs depth md ?s2)"
    "fetches ?s2 (listChildren E url dirs depth md ?s2)"
    using "3.IH"(2) [OF refl refl] by simp_all
  have "prints ?Q st (listChildren E url dirs depth md ?s2)"
    using prints_trans [OF a(1) prints_trans [OF conjunct1 [OF b] c(1)]] .
  moreover have "fetches st (listChildren E url dirs depth md ?s2)"
    using fetches_trans [OF a(2) fetches_trans [OF conjunct2 [OF b] c(2)]] .
  ultimately show ?case by (simp add: Let_def)
qed

text \<open>
  C9. \<open>listGlobalRecursive\<close> neither reads nor writes the visited set and the baseline
  cache: its result is the same, up to these components, whatever they hold, and every
  request it issues is the fetch of a page (no probe of a candidate, no status request). A
  page that yields entries is handled as the specification says: one fetch, the links split
  into directories (trailing slash) and files, a line for each file, then for each directory
  its line and the recursive call at \<open>depth + 1\<close> on the resolved URL. The recursion is
  well-founded by the depth alone (the measure decreases with \<open>md + 1 - depth\<close>): a call
  with \<open>depth > maxDepth\<close> returns at once, every call returns, and every printed line has
  a depth between \<open>depth\<close> and \<open>maxDepth\<close>. The witness is a page that links to itself:
  with \<open>maxDepth = 2\<close> it is fetched three times.
\<close>

theorem lister_depth_bounded:
  "((\<exists>st'. listGlobalRecursive E url depth maxDepth st = Inr st') \<longleftrightarrow>
      resolve_depth (max_list_depth E) maxDepth \<noteq> None) \<and>
   (resolve_depth (max_list_depth E) maxDepth = Some md \<longrightarrow>
      (md < int depth \<longrightarrow> listGlobalRecursive E url depth maxDepth st = Inr st) \<and>
      (\<forall>st'. listGlobalRecursive E url depth maxDepth st = Inr st' \<longrightarrow>
         prints (\<lambda>d. depth \<le> d \<and> int d \<le> md) st st' \<and>
         (\<exists>us. requests st' = requests st @ map Body us) \<and>
         staticVisited st' = staticVisited st \<and> notFoundCache st' = notFoundCache st \<and>
         randCalls st' = randCalls st) \<and>
      (int depth \<le> md \<and> page = net E (requests st) url \<and> page \<noteq> [] \<and>
       links = extractLinks page \<and> (filter is_dir links \<noteq> [] \<or> filter is_file links \<noteq> []) \<longrightarrow>
         listGlobalRecursive E url depth maxDepth st =
           Inr (listChildren E url (filter is_dir links) depth md
                  (st\<lparr>requests := requests st @ [Body url],
                      printed := printed st @ Listing depth url #
                        map (\<lambda>f. FileLine depth (file_colour f) f) (filter is_file links)\<rparr>)))) \<and>
   listChildren E url (dir # dirs) depth md st =
     listChildren E url dirs depth md
       (case listGlobalRecursive E (combineUrl url dir) (Suc depth) md (emit (DirLine depth dir) st) of
          Inr st2 \<Rightarrow> st2
        | Inl e \<Rightarrow> emit (DirLine depth dir) st) \<and>
   listGlobalRecursive E url depth maxDepth (with_caches V C n st) =
     map_sum id (with_caches V C n) (listGlobalRecursive E url depth maxDepth st)"
proof (intro conjI impI allI)
  show "(\<exists>st'. listGlobalRecursive E url depth maxDepth st = Inr st') \<longleftrightarrow>
      resolve_depth (max_list_depth E) maxDepth \<noteq> None"
    by (rule list_returns)
next
  assume "resolve_depth (max_list_depth E) maxDepth = Some md" "md < int depth"
  then show "listGlobalRecursive E url depth maxDepth st = Inr st" by (rule list_depth_gt)
next
  fix st'
  assume md: "resolve_depth (max_list_depth E) maxDepth = Some md"
    and r: "listGlobalRecursive E url depth maxDepth st = Inr st'"
  from prints_list(1) [of E maxDepth url depth st] md r
  have p: "prints (\<lambda>d. depth \<le> d \<and> int d \<le> md) st st'" and f: "fetches st st'" by blast+
  from p show "prints (\<lambda>d. depth \<le> d \<and> int d \<le> md) st st'" .
  from f show "\<exists>us. requests st' = requests st @ map Body us" by (simp add: fetches_def)
  from r show "staticVisited st' = staticVisited st" "notFoundCache st' = notFoundCache st"
    "randCalls st' = randCalls st" by (rule list_frame)+
next
  assume md: "resolve_depth (max_list_depth E) maxDepth = Some md"
    and a: "int depth \<le> md \<and> page = net E (requests st) url \<and> page \<noteq> [] \<and>
       links = extractLinks page \<and> (filter is_dir links \<noteq> [] \<or> filter is_file links \<noteq> [])"
  then have "listLevel E url depth st =
     (st\<lparr>requests := requests st @ [Body url],
         printed := printed st @ Listing depth url #
                    map (\<lambda>f. FileLine depth (file_colour f) f) (filter is_file links)\<rparr>,
      Some (filter is_dir links))"
    by (intro listLevel_page [of page]) auto
  with md a show "listGlobalRecursive E url depth maxDepth st =
           Inr (listChildren E url (filter is_dir links) depth md
                  (st\<lparr>requests := requests st @ [Body url],
                      printed := printed st @ Listing depth url #
                        map (\<lambda>f. FileLine depth (file_colour f) f) (filter is_file links)\<rparr>))"
    by (simp add: listGlobalRecursive.simps)
next
  show "listChildren E url (dir # dirs) depth md st =
     listChildren E url dirs depth md
       (case listGlobalRecursive E (combineUrl url dir) (Suc depth) md (emit (DirLine depth dir) st) of
          Inr st2 \<Rightarrow> st2
        | Inl e \<Rightarrow> emit (DirLine depth dir) st)"
    by (simp add: Let_def)
next
  show "listGlobalRecursive E url depth maxDepth (with_caches V C n st) =
     map_sum id (with_caches V C n) (listGlobalRecursive E url depth maxDepth st)"
    by (rule list_caches(1))
qed

theorem lister_depth_bounded_witness:
  "resolve_depth (max_list_depth E_cycle) 2 = Some 2 \<and>
   listGlobalRecursive E_cycle ''http://h/'' 3 2 st_init = Inr st_init \<and>
   (\<exists>st'. listGlobalRecursive E_cycle ''http://h/'' 0 2 st_init = Inr st' \<and>
          prints (\<lambda>d. 0 \<le> d \<and> int d \<le> 2) st_init st' \<and>
          staticVisited st' = staticVisited st_init \<and> notFoundCache st' = notFoundCache st_init) \<and>
   extractLinks (net E_cycle (requests st_init) ''http://h/'') = [''http://h/''] \<and>
   listGlobalRecursive E_cycle ''http://h/'' 0 2 st_init =
     Inr (listChildren E_cycle ''http://h/'' [''http://h/''] 0 2
            (st_init\<lparr>requests := [Body ''http://h/''], printed := [Listing 0 ''http://h/'']\<rparr>)) \<and>
   io_of (listGlobalRecursive E_cycle ''http://h/'' 0 2 st_init) =
     Some ([Body ''http://h/'', Body ''http://h/'', Body ''http://h/''],
           [Listing 0 ''http://h/'', DirLine 0 ''http://h/'',
            Listing 1 ''http://h/'', DirLine 1 ''http://h/'',
            Listing 2 ''http://h/'', DirLine 2 ''http://h/''])"
proof -
  let ?u = "''http://h/''"
  let ?page = "net E_cycle (requests st_init) ?u"
  have r: "resolve_depth (max_list_depth E_cycle) 2 = Some 2" by (simp add: resolve_depth_def)
  have l: "extractLinks ?page = [?u]" by code_simp
  have d: "filter is_dir [?u] = [?u]" "filter is_file [?u] = []" by code_simp+
  have ne: "?page \<noteq> []" by (simp add: E_cycle_def)
  note t = lister_depth_bounded [where E = E_cycle and url = ?u and maxDepth = 2 and md = 2
      and st = st_init]
  have g: "listGlobalRecursive E_cycle ?u 3 2 st_init = Inr st_init"
    using t [where depth = 3, THEN conjunct2, THEN conjunct1] r by simp
  have "\<exists>st'. listGlobalRecursive E_cycle ?u 0 2 st_init = Inr st'"
    using t [where depth = 0, THEN conjunct1] r by simp
  then obtain st' where
    st': "listGlobalRecursive E_cycle ?u 0 2 st_init = Inr st'" by blast
  with t [where depth = 0, THEN conjunct2, THEN conjunct1] r
  have p: "prints (\<lambda>d. 0 \<le> d \<and> int d \<le> 2) st_init st' \<and>
          staticVisited st' = staticVisited st_init \<and> notFoundCache st' = notFoundCache st_init"
    by blast
  have s: "listGlobalRecursive E_cycle ?u 0 2 st_init =
     Inr (listChildren E_cycle ?u [?u] 0 2
            (st_init\<lparr>requests := [Body ?u], printed := [Listing 0 ?u]\<rparr>))"
    using t [where depth = 0 and page = ?page and links = "[?u]", THEN conjunct2, THEN conjunct1]
      r l d ne
    by (simp add: st_init_def)
  have io: "io_of (listGlobalRecursive E_cycle ?u 0 2 st_init) =
     Some ([Body ?u, Body ?u, Body ?u],
           [Listing 0 ?u, DirLine 0 ?u, Listing 1 ?u, DirLine 1 ?u, Listing 2 ?u, DirLine 2 ?u])"
    by code_simp
  from r g st' p l s io show ?thesis by blast
qed

section \<open>Link extractor: what the pattern matches\<close>

lemma sem_litis:
  "sem b (litis cs r) g u g' \<longleftrightarrow>
     (\<exists>a u'. u = a @ u' \<and> length a = length cs \<and> ieq a cs \<and> sem (b \<and> cs = []) r g u' g')"
proof (induction cs arbitrary: b u)
  case Nil
  show ?case by (simp add: litis_def ieq_def)
next
  case (Cons c cs)
  have e: "litis (c # cs) r = Seq (Atom (\<lambda>x. to_lower x = to_lower c)) (litis cs r)"
    by (simp add: litis_def liti_def)
  show ?case
  proof
    assume "sem b (litis (c # cs) r) g u g'"
    then obtain x u2 where u: "u = x # u2" "to_lower x = to_lower c"
      and "sem False (litis cs r) g u2 g'"
      unfolding e sem_Seq_Atom by blast
    then obtain a u' where "u2 = a @ u'" "length a = length cs" "ieq a cs" "sem False r g u' g'"
      unfolding Cons.IH by auto
    with u have "u = (x # a) @ u' \<and> length (x # a) = length (c # cs) \<and> ieq (x # a) (c # cs) \<and>
        sem (b \<and> c # cs = []) r g u' g'"
      by (simp add: ieq_def)
    then show "\<exists>a u'. u = a @ u' \<and> length a = length (c # cs) \<and> ieq a (c # cs) \<and>
        sem (b \<and> c # cs = []) r g u' g'" by blast
  next
    assume "\<exists>a u'. u = a @ u' \<and> length a = length (c # cs) \<and> ieq a (c # cs) \<and>
        sem (b \<and> c # cs = []) r g u' g'"
    then obtain a u' where a: "u = a @ u'" "length a = length (c # cs)" "ieq a (c # cs)"
      "sem False r g u' g'" by auto
    then obtain x a' where xa: "a = x # a'" by (cases a) auto
    with a have "to_lower x = to_lower c" "length a' = length cs" "ieq a' cs"
      by (simp_all add: ieq_def)
    with a(4) have "sem False (litis cs r) g (a' @ u') g'"
      unfolding Cons.IH by auto
    with \<open>to_lower x = to_lower c\<close> a(1) xa show "sem b (litis (c # cs) r) g u g'"
      unfolding e sem_Seq_Atom by simp
  qed
qed

lemma to_lower_cases:
  "to_lower x = x \<or> to_lower x \<in> set ''abcdefghijklmnopqrstuvwxyz''"
proof (cases "map_of (zip ''ABCDEFGHIJKLMNOPQRSTUVWXYZ'' ''abcdefghijklmnopqrstuvwxyz'') x")
  case None
  then show ?thesis by (simp add: to_lower_def)
next
  case (Some l)
  then have "l \<in> set ''abcdefghijklmnopqrstuvwxyz''"
    by (meson map_of_SomeD set_zip_rightD)
  with Some show ?thesis by (simp add: to_lower_def)
qed

lemma to_lower_dquote: "to_lower x = to_lower dquote \<longleftrightarrow> x = dquote"
proof -
  have d: "to_lower dquote = dquote" by (simp add: to_lower_def dquote_def)
  have "dquote \<notin> set ''abcdefghijklmnopqrstuvwxyz''" by (simp add: dquote_def)
  with to_lower_cases [of x] d show ?thesis by auto
qed

lemma not_space_gt: "isspace c \<Longrightarrow> c \<noteq> CHR ''>''"
  by (auto simp: isspace_def)

lemma all_space_no_gt: "\<forall>c\<in>set w. isspace c \<Longrightarrow> CHR ''>'' \<notin> set w"
  using not_space_gt by blast

lemma filler_iff:
  "filler t \<longleftrightarrow>
     (t \<noteq> [] \<and> (\<forall>c\<in>set t. isspace c)) \<or>
     (\<exists>w1 x w2. t = w1 @ x @ w2 \<and> w1 \<noteq> [] \<and> (\<forall>c\<in>set w1. isspace c) \<and>
        (\<forall>c\<in>set x. c \<noteq> CHR ''>'') \<and> w2 \<noteq> [] \<and> (\<forall>c\<in>set w2. isspace c))"
  (is "_ \<longleftrightarrow> ?A \<or> ?B")
proof
  assume f: "filler t"
  then have ne: "t \<noteq> []" and h: "isspace (hd t)" and l: "isspace (last t)"
    and g: "CHR ''>'' \<notin> set t" by (simp_all add: filler_def)
  from ne obtain c t' where t: "t = c # t'" by (cases t) simp_all
  show "?A \<or> ?B"
  proof (cases "t' = []")
    case True
    with t h have "\<forall>c\<in>set t. isspace c" by simp
    with ne show ?thesis by blast
  next
    case False
    then have e: "t = [c] @ butlast t' @ [last t']" using t by simp
    have "set (butlast t') \<subseteq> set t" using t by (auto dest: in_set_butlastD)
    with g have b: "\<forall>x\<in>set (butlast t'). x \<noteq> CHR ''>''" by blast
    have "isspace c" "isspace (last t')" using h l t False by simp_all
    with e b have ?B
      by (intro exI [of _ "[c]"] exI [of _ "butlast t'"] exI [of _ "[last t']"]) simp
    then show ?thesis ..
  qed
next
  assume "?A \<or> ?B"
  then show "filler t"
  proof
    assume a: ?A
    then have ne: "t \<noteq> []" and sp: "\<forall>c\<in>set t. isspace c" by blast+
    from ne have "hd t \<in> set t" "last t \<in> set t" by (rule hd_in_set, rule last_in_set)
    with sp have "isspace (hd t)" "isspace (last t)" by blast+
    moreover have "CHR ''>'' \<notin> set t" using sp by (rule all_space_no_gt)
    ultimately show ?thesis using ne unfolding filler_def by blast
  next
    assume ?B
    then obtain w1 x w2 where t: "t = w1 @ x @ w2" and w1: "w1 \<noteq> []" "\<forall>c\<in>set w1. isspace c"
      and x: "\<forall>c\<in>set x. c \<noteq> CHR ''>''" and w2: "w2 \<noteq> []" "\<forall>c\<in>set w2. isspace c" by auto
    have "hd t = hd w1" unfolding t using w1(1) by (rule hd_append2)
    moreover have "hd w1 \<in> set w1" using w1(1) by (rule hd_in_set)
    ultimately have h: "isspace (hd t)" using w1(2) by simp
    have "last t = last w2" unfolding t using w2(1) by simp
    moreover have "last w2 \<in> set w2" using w2(1) by (rule last_in_set)
    ultimately have l: "isspace (last t)" using w2(2) by simp
    have "CHR ''>'' \<notin> set w1" using w1(2) by (rule all_space_no_gt)
    moreover have "CHR ''>'' \<notin> set w2" using w2(2) by (rule all_space_no_gt)
    moreover have "CHR ''>'' \<notin> set x" using x by blast
    ultimately have g: "CHR ''>'' \<notin> set t" unfolding t by simp
    have "t \<noteq> []" unfolding t using w1(1) by simp
    with h l g show ?thesis unfolding filler_def by blast
  qed
qed

lemma ieq_length: "ieq a b \<Longrightarrow> length a = length b"
  unfolding ieq_def by (rule map_eq_imp_length_eq)

lemma ieq_snoc:
  "ieq h (cs @ [d]) \<longleftrightarrow> (\<exists>a c. h = a @ [c] \<and> ieq a cs \<and> to_lower c = to_lower d)"
proof
  assume i: "ieq h (cs @ [d])"
  then have "length h = Suc (length cs)" using ieq_length by fastforce
  then have h: "h = butlast h @ [last h]" "length (butlast h) = length cs"
    by (auto simp: length_Suc_conv_rev)
  from i have "map to_lower (butlast h) @ [to_lower (last h)] = map to_lower cs @ [to_lower d]"
    unfolding ieq_def by (subst (asm) h(1)) simp
  then have "ieq (butlast h) cs \<and> to_lower (last h) = to_lower d"
    unfolding ieq_def by simp
  with h(1) show "\<exists>a c. h = a @ [c] \<and> ieq a cs \<and> to_lower c = to_lower d" by metis
next
  assume "\<exists>a c. h = a @ [c] \<and> ieq a cs \<and> to_lower c = to_lower d"
  then show "ieq h (cs @ [d])" unfolding ieq_def by auto
qed

lemma sem_Seq_snoc_Atom:
  "sem b (Seq r (Atom p)) g u g' \<longleftrightarrow> (\<exists>u1 c. u = u1 @ [c] \<and> p c \<and> sem b r g u1 g')"
proof
  assume "sem b (Seq r (Atom p)) g u g'"
  then show "\<exists>u1 c. u = u1 @ [c] \<and> p c \<and> sem b r g u1 g'" by auto
next
  assume "\<exists>u1 c. u = u1 @ [c] \<and> p c \<and> sem b r g u1 g'"
  then obtain u1 c where "u = u1 @ [c]" "p c" "sem b r g u1 g'" by auto
  then have "u = u1 @ [c] \<and> sem b r g u1 g' \<and> sem (b \<and> u1 = []) (Atom p) g' [c] g'" by simp
  then show "sem b (Seq r (Atom p)) g u g'" unfolding sem.simps(3) by blast
qed

lemma sem_litis':
  "sem b (litis cs r) g u g' \<longleftrightarrow>
     (\<exists>a u'. u = a @ u' \<and> ieq a cs \<and> sem (b \<and> cs = []) r g u' g')"
  unfolding sem_litis using ieq_length by metis

lemma sem_href_tail:
  "sem b href_tail g u g' \<longleftrightarrow>
     (\<exists>h v. u = h @ v @ [dquote] \<and> ieq h (''href='' @ [dquote]) \<and> dquote \<notin> set v \<and> g' = Some v)"
proof -
  have "sem b href_tail g u g' \<longleftrightarrow>
     (\<exists>a u'. u = a @ u' \<and> ieq a ''href='' \<and>
        (\<exists>c u2. u' = c # u2 \<and> c = dquote \<and>
           (\<exists>v d. u2 = v @ [d] \<and> d = dquote \<and> (\<forall>c\<in>set v. c \<noteq> dquote) \<and> g' = Some v)))"
    unfolding href_tail_def sem_litis' liti_def sem_Seq_Atom sem_Seq_snoc_Atom to_lower_dquote
    by auto
  also have "\<dots> \<longleftrightarrow> (\<exists>a c v. u = (a @ [c]) @ v @ [dquote] \<and> ieq a ''href='' \<and>
       to_lower c = to_lower dquote \<and> dquote \<notin> set v \<and> g' = Some v)"
    unfolding to_lower_dquote by auto
  also have "\<dots> \<longleftrightarrow> (\<exists>h v. u = h @ v @ [dquote] \<and> ieq h (''href='' @ [dquote]) \<and>
       dquote \<notin> set v \<and> g' = Some v)"
    unfolding ieq_snoc by metis
  finally show ?thesis .
qed

lemma href_regex_eq:
  "href_regex = litis ''<a'' (Seq (plusG isspace) (Seq (Opt href_gap) href_tail))"
  by (simp add: href_regex_def href_gap_def href_tail_def)

lemma sem_href_gap:
  "sem b href_gap g u g' \<longleftrightarrow>
     (\<exists>x w2. u = x @ w2 \<and> (\<forall>c\<in>set x. c \<noteq> CHR ''>'') \<and> w2 \<noteq> [] \<and> (\<forall>c\<in>set w2. isspace c) \<and>
             g' = g)"
  unfolding href_gap_def sem.simps(3) sem.simps(6) sem_plusG by auto

lemma sem_href_tail_b: "sem b href_tail g u g' = sem b' href_tail g u g'"
  unfolding sem_href_tail ..

lemma sem_SeqE:
  assumes "sem b (Seq r1 r2) g u g'"
  obtains u1 u2 g1 where "u = u1 @ u2" "sem b r1 g u1 g1" "sem (b \<and> u1 = []) r2 g1 u2 g'"
  using assms by auto

lemma sem_SeqI:
  "u = u1 @ u2 \<Longrightarrow> sem b r1 g u1 g1 \<Longrightarrow> sem (b \<and> u1 = []) r2 g1 u2 g' \<Longrightarrow>
   sem b (Seq r1 r2) g u g'"
  by auto

lemma sem_href_filler:
  "sem b (Seq (plusG isspace) (Seq (Opt href_gap) href_tail)) g u g' \<longleftrightarrow>
     (\<exists>t u3. u = t @ u3 \<and> filler t \<and> sem False href_tail g u3 g')"
proof
  assume "sem b (Seq (plusG isspace) (Seq (Opt href_gap) href_tail)) g u g'"
  then obtain w1 u2 g1 where u: "u = w1 @ u2" and p: "sem b (plusG isspace) g w1 g1"
    and r: "sem (b \<and> w1 = []) (Seq (Opt href_gap) href_tail) g1 u2 g'"
    by (rule sem_SeqE)
  from p have w1: "w1 \<noteq> []" "\<forall>c\<in>set w1. isspace c" and g1: "g1 = g"
    unfolding sem_plusG by simp_all
  from r consider "sem (b \<and> w1 = []) (Seq href_gap href_tail) g u2 g'"
    | "sem (b \<and> w1 = []) href_tail g u2 g'"
    unfolding sem_Seq_Opt g1 by blast
  then show "\<exists>t u3. u = t @ u3 \<and> filler t \<and> sem False href_tail g u3 g'"
  proof cases
    case 1
    then obtain xw u3 g2 where u2: "u2 = xw @ u3" and gap: "sem (b \<and> w1 = []) href_gap g xw g2"
      and t: "sem ((b \<and> w1 = []) \<and> xw = []) href_tail g2 u3 g'"
      by (rule sem_SeqE)
    from gap obtain x w2 where xw: "xw = x @ w2" and x: "\<forall>c\<in>set x. c \<noteq> CHR ''>''"
      and w2: "w2 \<noteq> []" "\<forall>c\<in>set w2. isspace c" and g2: "g2 = g"
      unfolding sem_href_gap by auto
    have "\<exists>w1' x' w2'. w1 @ x @ w2 = w1' @ x' @ w2' \<and> w1' \<noteq> [] \<and> (\<forall>c\<in>set w1'. isspace c) \<and>
        (\<forall>c\<in>set x'. c \<noteq> CHR ''>'') \<and> w2' \<noteq> [] \<and> (\<forall>c\<in>set w2'. isspace c)"
      using w1 x w2 by (intro exI [of _ w1] exI [of _ x] exI [of _ w2]) simp
    then have "filler (w1 @ x @ w2)" unfolding filler_iff ..
    moreover have "u = (w1 @ x @ w2) @ u3" using u u2 xw by simp
    moreover have "sem False href_tail g u3 g'" using t g2 sem_href_tail_b by blast
    ultimately show ?thesis by (intro exI [of _ "w1 @ x @ w2"] exI [of _ u3]) simp
  next
    case 2
    have "filler w1" unfolding filler_iff using w1 by (intro disjI1) simp
    moreover have "sem False href_tail g u2 g'" using 2 sem_href_tail_b by blast
    ultimately show ?thesis using u by (intro exI [of _ w1] exI [of _ u2]) simp
  qed
next
  assume "\<exists>t u3. u = t @ u3 \<and> filler t \<and> sem False href_tail g u3 g'"
  then obtain t u3 where u: "u = t @ u3" and f: "filler t" and s: "sem False href_tail g u3 g'"
    by auto
  from f consider "t \<noteq> []" "\<forall>c\<in>set t. isspace c"
    | w1 x w2 where "t = w1 @ x @ w2" "w1 \<noteq> []" "\<forall>c\<in>set w1. isspace c"
        "\<forall>c\<in>set x. c \<noteq> CHR ''>''" "w2 \<noteq> []" "\<forall>c\<in>set w2. isspace c"
    unfolding filler_iff by auto
  then show "sem b (Seq (plusG isspace) (Seq (Opt href_gap) href_tail)) g u g'"
  proof cases
    case 1
    have "sem (b \<and> t = []) href_tail g u3 g'" using s sem_href_tail_b by blast
    then have "sem (b \<and> t = []) (Seq (Opt href_gap) href_tail) g u3 g'"
      unfolding sem_Seq_Opt by (rule disjI2)
    moreover have "sem b (plusG isspace) g t g" unfolding sem_plusG using 1 by simp
    ultimately show ?thesis using u by (intro sem_SeqI [of u t u3])
  next
    case 2
    have "sem (b \<and> w1 = []) href_gap g (x @ w2) g"
      unfolding sem_href_gap using 2 by (intro exI [of _ x] exI [of _ w2]) simp
    moreover have "sem ((b \<and> w1 = []) \<and> x @ w2 = []) href_tail g u3 g'"
      using s sem_href_tail_b by blast
    ultimately have "sem (b \<and> w1 = []) (Seq href_gap href_tail) g ((x @ w2) @ u3) g'"
      by (intro sem_SeqI [of _ "x @ w2" u3]) simp_all
    then have "sem (b \<and> w1 = []) (Seq (Opt href_gap) href_tail) g ((x @ w2) @ u3) g'"
      unfolding sem_Seq_Opt by (rule disjI1)
    moreover have "sem b (plusG isspace) g w1 g" unfolding sem_plusG using 2 by simp
    moreover have "u = w1 @ ((x @ w2) @ u3)" using u 2(1) by simp
    ultimately show ?thesis by (intro sem_SeqI [of u w1 "(x @ w2) @ u3"])
  qed
qed

lemma href_lit: \<open>''href="'' = ''href='' @ [dquote]\<close>
  by (simp add: dquote_def)

lemma sem_href:
  "sem b href_regex None m g' \<longleftrightarrow> (\<exists>v. g' = Some v \<and> anchor_href m v)"
proof -
  have "sem b href_regex None m g' \<longleftrightarrow>
     (\<exists>a u1. m = a @ u1 \<and> ieq a ''<a'' \<and>
        (\<exists>t u3. u1 = t @ u3 \<and> filler t \<and>
           (\<exists>h v. u3 = h @ v @ [dquote] \<and> ieq h (''href='' @ [dquote]) \<and> dquote \<notin> set v \<and>
                  g' = Some v)))"
    unfolding href_regex_eq sem_litis' sem_href_filler sem_href_tail by simp
  also have "\<dots> \<longleftrightarrow> (\<exists>v. g' = Some v \<and> anchor_href m v)"
    unfolding anchor_href_def tag_with_def href_lit by metis
  finally show ?thesis .
qed

lemma search_from_None:
  "search_from len r s = None \<Longrightarrow> length s \<le> len \<Longrightarrow> q \<le> length s \<Longrightarrow>
   drop q s = u @ v \<Longrightarrow> \<not> sem (length s - q = len) r None u g'"
proof (induction s arbitrary: q)
  case Nil
  then have "match_at False len r [] = None" by (simp split: option.splits)
  from match_at_complete [OF this, of u v g'] Nil show ?case by simp
next
  case (Cons c cs)
  from Cons.prems(1) have m: "match_at False len r (c # cs) = None"
    and s: "search_from len r cs = None" by (auto split: option.splits prod.splits)
  show ?case
  proof (cases q)
    case 0
    with match_at_complete [OF m Cons.prems(2), of u v g'] Cons.prems(4) show ?thesis by simp
  next
    case (Suc q')
    with Cons.prems have "length cs \<le> len" "q' \<le> length cs" "drop q' cs = u @ v" by simp_all
    from Cons.IH [OF s this] Suc show ?thesis by simp
  qed
qed

lemma search_from_Some:
  "search_from len r s = Some (p, n, g) \<Longrightarrow> length s \<le> len \<Longrightarrow>
   p + n \<le> length s \<and> sem (length s - p = len) r None (take n (drop p s)) g \<and>
   (\<forall>q<p. \<forall>u v g'. drop q s = u @ v \<longrightarrow> \<not> sem (length s - q = len) r None u g')"
proof (induction s arbitrary: p)
  case Nil
  then have m: "match_at False len r [] = Some (n, g)" and p: "p = 0"
    by (auto split: option.splits)
  from match_at_sound [OF m] Nil.prems(2) p show ?case by auto
next
  case (Cons c cs)
  show ?case
  proof (cases "match_at False len r (c # cs)")
    case (Some x)
    with Cons.prems(1) have m: "match_at False len r (c # cs) = Some (n, g)" and p: "p = 0"
      by (auto split: prod.splits)
    from match_at_sound [OF m Cons.prems(2)] obtain u v where
      "c # cs = u @ v" "n = length u" "sem (length (c # cs) = len) r None u g" by blast
    then have "n \<le> length (c # cs)" "take n (c # cs) = u"
      by (metis length_append le_add1, metis append_eq_conv_conj)
    with \<open>sem (length (c # cs) = len) r None u g\<close> p show ?thesis by simp
  next
    case None
    with Cons.prems(1) obtain p' where s: "search_from len r cs = Some (p', n, g)"
      and p: "p = Suc p'" by (auto split: option.splits)
    have le: "length cs \<le> len" using Cons.prems(2) by simp
    from Cons.IH [OF s le] have ih: "p' + n \<le> length cs"
      "sem (length cs - p' = len) r None (take n (drop p' cs)) g"
      "\<forall>q<p'. \<forall>u v g'. drop q cs = u @ v \<longrightarrow> \<not> sem (length cs - q = len) r None u g'"
      by blast+
    have "\<forall>q<p. \<forall>u v g'. drop q (c # cs) = u @ v \<longrightarrow>
            \<not> sem (length (c # cs) - q = len) r None u g'"
    proof (intro allI impI)
      fix q u v g'
      assume q: "q < p" and d: "drop q (c # cs) = u @ v"
      show "\<not> sem (length (c # cs) - q = len) r None u g'"
      proof (cases q)
        case 0
        with match_at_complete [OF None Cons.prems(2), of u v g'] d show ?thesis by simp
      next
        case (Suc q')
        with q p d have "q' < p'" "drop q' cs = u @ v" by simp_all
        with ih(3) Suc show ?thesis by simp
      qed
    qed
    with ih(1,2) p show ?thesis by simp
  qed
qed

lemma anchor_nonempty: "anchor_href m v \<Longrightarrow> m \<noteq> []"
  unfolding anchor_href_def tag_with_def by auto

lemma href_search_None:
  assumes "search_from len href_regex s = None" "length s \<le> len"
  shows "\<not> occurs_at s q"
proof
  assume "occurs_at s q"
  then obtain m v rest where d: "drop q s = m @ rest" and a: "anchor_href m v"
    unfolding occurs_at_def by blast
  from a d have "q \<le> length s" using anchor_nonempty [OF a] by (cases "q \<le> length s") auto
  from search_from_None [OF assms this d, of "Some v"] a show False
    unfolding sem_href by blast
qed

lemma href_search_Some:
  assumes "search_from len href_regex s = Some (p, n, g)" "length s \<le> len"
  shows "\<exists>v. g = Some v \<and> anchor_href (take n (drop p s)) v"
    and "p + n \<le> length s" and "0 < n" and "\<forall>q<p. \<not> occurs_at s q"
proof -
  note t = search_from_Some [OF assms]
  from t show v: "\<exists>v. g = Some v \<and> anchor_href (take n (drop p s)) v"
    unfolding sem_href by blast
  from t show le: "p + n \<le> length s" by blast
  from v obtain v' where "anchor_href (take n (drop p s)) v'" by blast
  from anchor_nonempty [OF this] show "0 < n" by (cases n) auto
  show "\<forall>q<p. \<not> occurs_at s q"
  proof (intro allI impI notI)
    fix q
    assume q: "q < p" and "occurs_at s q"
    then obtain m v rest where d: "drop q s = m @ rest" and a: "anchor_href m v"
      unfolding occurs_at_def by blast
    from t q d have "\<not> sem (length s - q = len) href_regex None m (Some v)" by blast
    with a show False unfolding sem_href by blast
  qed
qed

section \<open>Link extractor: which match the matcher returns\<close>

text \<open>
  \<open>sem\<close> tells which texts the pattern matches; the lemmas below add the order in which the
  matcher tries them. A greedy star hands on the longest prefix with which the rest of the
  pattern succeeds, a lazy star the shortest one.
\<close>

lemma starG_first:
  "starG p s k = Some x \<Longrightarrow>
   \<exists>u v. s = u @ v \<and> (\<forall>c\<in>set u. p c) \<and> k v = Some x \<and>
         (\<forall>u' v'. s = u' @ v' \<and> (\<forall>c\<in>set u'. p c) \<and> length u < length u' \<longrightarrow> k v' = None)"
proof (induction s)
  case Nil
  then show ?case by (intro exI [of _ "[]"]) simp
next
  case (Cons c cs)
  show ?case
  proof (cases "p c \<and> starG p cs k = Some x")
    case True
    with Cons.IH obtain u v where u: "cs = u @ v" "\<forall>c\<in>set u. p c" "k v = Some x"
      and l: "\<forall>u' v'. cs = u' @ v' \<and> (\<forall>c\<in>set u'. p c) \<and> length u < length u' \<longrightarrow> k v' = None"
      by blast
    have "\<forall>u' v'. c # cs = u' @ v' \<and> (\<forall>c\<in>set u'. p c) \<and> length (c # u) < length u' \<longrightarrow>
            k v' = None"
    proof (intro allI impI)
      fix u' v'
      assume a: "c # cs = u' @ v' \<and> (\<forall>c\<in>set u'. p c) \<and> length (c # u) < length u'"
      then obtain u'' where "u' = c # u''" by (cases u') auto
      with a l show "k v' = None" by auto
    qed
    with u True show ?thesis by (intro exI [of _ "c # u"] exI [of _ v]) simp
  next
    case False
    with Cons.prems have k: "k (c # cs) = Some x" and n: "p c \<longrightarrow> starG p cs k = None"
      by (auto split: if_splits option.splits)
    have "\<forall>u' v'. c # cs = u' @ v' \<and> (\<forall>c\<in>set u'. p c) \<and> length ([]::string) < length u' \<longrightarrow>
            k v' = None"
    proof (intro allI impI)
      fix u' v'
      assume a: "c # cs = u' @ v' \<and> (\<forall>c\<in>set u'. p c) \<and> length ([]::string) < length u'"
      then obtain u'' where u': "u' = c # u''" by (cases u') auto
      with a have "p c" "cs = u'' @ v'" "\<forall>c\<in>set u''. p c" by auto
      with n starG_complete [of p cs k u'' v'] show "k v' = None" by blast
    qed
    with k show ?thesis by (intro exI [of _ "[]"] exI [of _ "c # cs"]) simp
  qed
qed

lemma starL_first:
  "starL p s k = Some x \<Longrightarrow>
   \<exists>u v. s = u @ v \<and> (\<forall>c\<in>set u. p c) \<and> k v = Some x \<and>
         (\<forall>u' v'. s = u' @ v' \<and> length u' < length u \<longrightarrow> k v' = None)"
proof (induction s)
  case Nil
  then show ?case by (intro exI [of _ "[]"]) simp
next
  case (Cons c cs)
  show ?case
  proof (cases "k (c # cs) = Some x")
    case True
    then show ?thesis by (intro exI [of _ "[]"] exI [of _ "c # cs"]) simp
  next
    case False
    with Cons.prems have kn: "k (c # cs) = None" and pc: "p c" and "starL p cs k = Some x"
      by (auto split: if_splits option.splits)
    with Cons.IH obtain u v where u: "cs = u @ v" "\<forall>c\<in>set u. p c" "k v = Some x"
      and l: "\<forall>u' v'. cs = u' @ v' \<and> length u' < length u \<longrightarrow> k v' = None"
      by blast
    have "\<forall>u' v'. c # cs = u' @ v' \<and> length u' < length (c # u) \<longrightarrow> k v' = None"
    proof (intro allI impI)
      fix u' v'
      assume a: "c # cs = u' @ v' \<and> length u' < length (c # u)"
      show "k v' = None"
      proof (cases u')
        case Nil
        with a kn show ?thesis by simp
      next
        case (Cons d u'')
        with a l show ?thesis by auto
      qed
    qed
    with u pc show ?thesis by (intro exI [of _ "c # u"] exI [of _ v]) simp
  qed
qed

lemma rmatch_litis:
  "rmatch len (litis cs r) g s k =
     (if length cs \<le> length s \<and> ieq (take (length cs) s) cs
      then rmatch len r g (drop (length cs) s) k else None)"
proof (induction cs arbitrary: s)
  case Nil
  show ?case by (simp add: litis_def ieq_def)
next
  case (Cons c cs)
  have e: "litis (c # cs) r = Seq (Atom (\<lambda>x. to_lower x = to_lower c)) (litis cs r)"
    by (simp add: litis_def liti_def)
  show ?case unfolding e by (cases s) (simp_all add: Cons.IH ieq_def)
qed

lemma href_tail_Some:
  assumes "rmatch len href_tail g u k = Some x" "length u \<le> len"
  shows \<open>\<exists>h v rest. u = h @ v @ dquote # rest \<and> ieq h ''href="'' \<and> dquote \<notin> set v \<and>
           k (Some v) rest = Some x\<close>
proof -
  from rmatch_sound [OF assms] obtain m rest g' where
    "u = m @ rest" "sem (length u = len) href_tail g m g'" "k g' rest = Some x" by blast
  then obtain h v where "u = (h @ v @ [dquote]) @ rest" \<open>ieq h ''href="''\<close> "dquote \<notin> set v"
    "k (Some v) rest = Some x"
    unfolding sem_href_tail href_lit [symmetric] by auto
  then show ?thesis by (intro exI [of _ h] exI [of _ v] exI [of _ rest]) simp
qed

lemma href_tail_None:
  assumes "rmatch len href_tail g u k = None" "length u \<le> len"
    and \<open>u = h @ v @ dquote # rest\<close> \<open>ieq h ''href="''\<close> \<open>dquote \<notin> set v\<close>
  shows "k (Some v) rest = None"
proof -
  have "sem (length u = len) href_tail g (h @ v @ [dquote]) (Some v)"
    unfolding sem_href_tail href_lit [symmetric] using assms(4,5) by blast
  moreover have "u = (h @ v @ [dquote]) @ rest" using assms(3) by simp
  ultimately show ?thesis using rmatch_complete [OF assms(1,2)] by blast
qed

lemma plusG_Some:
  assumes "rmatch len (plusG p) g u k = Some x" "length u \<le> len"
  shows "\<exists>w r. u = w @ r \<and> w \<noteq> [] \<and> (\<forall>c\<in>set w. p c) \<and> k g r = Some x"
  using rmatch_sound [OF assms] unfolding sem_plusG by auto

lemma plusG_None:
  assumes "rmatch len (plusG p) g u k = None" "length u \<le> len"
    and "u = w @ r" "w \<noteq> []" "\<forall>c\<in>set w. p c"
  shows "k g r = None"
proof -
  have "sem (length u = len) (plusG p) g w g" unfolding sem_plusG using assms(4,5) by simp
  with rmatch_complete [OF assms(1,2,3)] show ?thesis by blast
qed

lemma href_gap_None:
  assumes "rmatch len href_gap g u k = None" "length u \<le> len"
    and "u = y @ w @ r" "\<forall>c\<in>set y. c \<noteq> CHR ''>''" "w \<noteq> []" "\<forall>c\<in>set w. isspace c"
  shows "k g r = None"
proof -
  have "sem (length u = len) href_gap g (y @ w) g"
    unfolding sem_href_gap using assms(4,5,6) by blast
  moreover have "u = (y @ w) @ r" using assms(3) by simp
  ultimately show ?thesis using rmatch_complete [OF assms(1,2)] by blast
qed

lemma href_gap_first:
  assumes "rmatch len href_gap g u k = Some x" "length u \<le> len"
  shows "\<exists>y w r. u = y @ w @ r \<and> (\<forall>c\<in>set y. c \<noteq> CHR ''>'') \<and> w \<noteq> [] \<and>
           (\<forall>c\<in>set w. isspace c) \<and> k g r = Some x \<and>
           (\<forall>y' w' r'. u = y' @ w' @ r' \<and> length y' < length y \<and> w' \<noteq> [] \<and>
               (\<forall>c\<in>set w'. isspace c) \<longrightarrow> k g r' = None)"
proof -
  let ?K = "\<lambda>s1. rmatch len (plusG isspace) g s1 k"
  from assms(1) have "starL (\<lambda>c. c \<noteq> CHR ''>'') u ?K = Some x"
    by (simp add: href_gap_def)
  from starL_first [OF this] obtain y r1 where u: "u = y @ r1"
    and y: "\<forall>c\<in>set y. c \<noteq> CHR ''>''" and k: "?K r1 = Some x"
    and l: "\<forall>u' v'. u = u' @ v' \<and> length u' < length y \<longrightarrow> ?K v' = None" by blast
  have "length r1 \<le> len" using u assms(2) by simp
  from plusG_Some [OF k this] obtain w r where w: "r1 = w @ r" "w \<noteq> []" "\<forall>c\<in>set w. isspace c"
    "k g r = Some x" by blast
  have "\<forall>y' w' r'. u = y' @ w' @ r' \<and> length y' < length y \<and> w' \<noteq> [] \<and>
               (\<forall>c\<in>set w'. isspace c) \<longrightarrow> k g r' = None"
  proof (intro allI impI)
    fix y' w' r'
    assume a: "u = y' @ w' @ r' \<and> length y' < length y \<and> w' \<noteq> [] \<and> (\<forall>c\<in>set w'. isspace c)"
    with l have n: "?K (w' @ r') = None" by blast
    have "length (w' @ r') \<le> len" using a assms(2) by simp
    from plusG_None [OF n this refl] a show "k g r' = None" by blast
  qed
  with u y w show ?thesis by (intro exI [of _ y] exI [of _ w] exI [of _ r]) simp
qed

lemma space_not_h: "isspace c \<Longrightarrow> to_lower c \<noteq> CHR ''h''"
  by (auto simp: isspace_def to_lower_def)

lemma ieq_href_hd:
  assumes \<open>ieq h ''href="''\<close>
  shows "\<exists>c h'. h = c # h' \<and> \<not> isspace c"
proof -
  from assms obtain c h' where h: "h = c # h'" unfolding ieq_def by (cases h) auto
  with assms have "to_lower c = CHR ''h''" unfolding ieq_def by (simp add: to_lower_def)
  with space_not_h [of c] h show ?thesis by blast
qed

lemma cand_blank:
  assumes "s = t @ h @ r" "blank t" \<open>ieq h ''href="''\<close>
  shows "t = takeWhile isspace s" "dropWhile isspace s = h @ r"
proof -
  from ieq_href_hd [OF assms(3)] obtain c h' where h: "h = c # h'" "\<not> isspace c" by blast
  from assms(2) have b: "\<And>x. x \<in> set t \<Longrightarrow> isspace x" unfolding blank_def by blast
  show "t = takeWhile isspace s" unfolding assms(1) h using h(2) b
    by (simp add: takeWhile_append2)
  show "dropWhile isspace s = h @ r" unfolding assms(1) h using h(2) b
    by (simp add: dropWhile_append2)
qed

lemma cand_nonblank:
  assumes "s = t @ r" "filler t" "\<not> blank t"
  shows "\<exists>y l. t = takeWhile isspace s @ y @ [l] \<and> dropWhile isspace s = y @ l # r \<and>
           y \<noteq> [] \<and> \<not> isspace (hd y) \<and> isspace l \<and> CHR ''>'' \<notin> set y"
proof -
  let ?w = "takeWhile isspace t" and ?z = "dropWhile isspace t"
  from assms(3) have z: "?z \<noteq> []" unfolding blank_def by simp
  then have "\<not> isspace (hd ?z)" by (rule hd_dropWhile)
  with z obtain c cs where c: "?z = c # cs" "\<not> isspace c" by (cases ?z) auto
  from assms(2) have l: "isspace (last t)" and g: "CHR ''>'' \<notin> set t"
    unfolding filler_def by simp_all
  have "last (?w @ ?z) = last ?z" using z by (rule last_appendR)
  with l have "isspace (last (c # cs))" unfolding c(1) [symmetric] by simp
  with c(2) have cs: "cs \<noteq> []" "isspace (last cs)" by (auto split: if_splits)
  then have e: "cs = butlast cs @ [last cs]" by simp
  have "?w @ ?z = t" by simp
  then have t: "t = ?w @ c # cs" unfolding c(1) by simp
  have sp: "\<And>x. x \<in> set ?w \<Longrightarrow> isspace x" by (rule set_takeWhileD [THEN conjunct2])
  have s: "s = ?w @ c # (cs @ r)" unfolding assms(1) by (subst t) simp
  have tw: "takeWhile isspace s = ?w" unfolding s using sp c(2) by (simp add: takeWhile_append2)
  have dw: "dropWhile isspace s = c # (cs @ r)" unfolding s using sp c(2)
    by (simp add: dropWhile_append2)
  have 1: "t = takeWhile isspace s @ (c # butlast cs) @ [last cs]"
    unfolding tw by (subst t, subst e) simp
  have 2: "dropWhile isspace s = (c # butlast cs) @ last cs # r"
    unfolding dw by (subst e) simp
  have "set (c # butlast cs) \<subseteq> set (?w @ c # cs)" by (auto dest: in_set_butlastD)
  then have "set (c # butlast cs) \<subseteq> set t" unfolding t [symmetric] .
  with g have 3: "CHR ''>'' \<notin> set (c # butlast cs)" by blast
  from 1 2 3 c(2) cs(2) show ?thesis
    by (intro exI [of _ "c # butlast cs"] exI [of _ "last cs"]) simp
qed

lemma href_rest_first:
  assumes m: "rmatch len (Seq (plusG isspace) (Seq (Opt href_gap) href_tail)) None s k = Some x"
    and le: "length s \<le> len" and tot: "\<And>g r. k g r \<noteq> None"
  shows \<open>\<exists>t h v rest. s = t @ h @ v @ dquote # rest \<and> filler t \<and> ieq h ''href="'' \<and>
           dquote \<notin> set v \<and> k (Some v) rest = Some x \<and>
           (\<forall>t' h' v' rest'. s = t' @ h' @ v' @ dquote # rest' \<and> filler t' \<and>
                ieq h' ''href="'' \<and> dquote \<notin> set v' \<longrightarrow>
              (if blank t then blank t' else blank t' \<or> length t \<le> length t'))\<close>
proof -
  let ?K2 = "\<lambda>g' s'. rmatch len href_tail g' s' k"
  let ?K = "\<lambda>s'. rmatch len (Seq (Opt href_gap) href_tail) None s' k"
  let ?w = "takeWhile isspace s" and ?r0 = "dropWhile isspace s"
  have K: "?K s' = (case rmatch len href_gap None s' ?K2 of Some r \<Rightarrow> Some r
                    | None \<Rightarrow> ?K2 None s')" for s'
    by simp
  have le0: "length ?r0 \<le> len" using le length_dropWhile_le [of isspace s] by simp
  from m obtain c cs where s: "s = c # cs" and c: "isspace c"
    and sg: "starG isspace cs ?K = Some x"
    by (auto simp: plusG_def split: list.splits if_splits)
  from starG_first [OF sg] obtain u r1 where cs: "cs = u @ r1" and u: "\<forall>c\<in>set u. isspace c"
    and k1: "?K r1 = Some x"
    and longer: "\<forall>u' v'. cs = u' @ v' \<and> (\<forall>c\<in>set u'. isspace c) \<and> length u < length u' \<longrightarrow>
                   ?K v' = None" by blast
  have le1: "length r1 \<le> len" using le s cs by simp
  have cu: "\<And>x. x \<in> set (c # u) \<Longrightarrow> isspace x" using c u by auto
  have bcu: "blank (c # u)" unfolding blank_def using cu by blast
  have s1: "s = (c # u) @ r1" using s cs by simp
  have tail_ok: False
    if "?K2 None (h' @ v' @ dquote # rest') = None" "length (h' @ v' @ dquote # rest') \<le> len"
      \<open>ieq h' ''href="''\<close> "dquote \<notin> set v'" for h' v' rest'
  proof -
    from href_tail_None [OF that(1,2) refl that(3,4)] have "k (Some v') rest' = None" .
    with tot [of "Some v'" rest'] show False by simp
  qed
  have nonblank: False
    if "s = t' @ h' @ v' @ dquote # rest'" "filler t'" \<open>ieq h' ''href="''\<close> "dquote \<notin> set v'"
      "\<not> blank t'" "rmatch len href_gap None ?r0 ?K2 = None" for t' h' v' rest'
  proof -
    from cand_nonblank [OF that(1,2,5)] obtain y l where
      r0: "?r0 = y @ l # (h' @ v' @ dquote # rest')" and y: "CHR ''>'' \<notin> set y" "isspace l"
      by blast
    have e: "?r0 = y @ [l] @ (h' @ v' @ dquote # rest')" using r0 by simp
    have y': "\<forall>c\<in>set y. c \<noteq> CHR ''>''" using y(1) by blast
    have l: "[l] \<noteq> []" "\<forall>c\<in>set [l]. isspace c" using y(2) by simp_all
    from href_gap_None [OF that(6) le0 e y' l]
    have n: "?K2 None (h' @ v' @ dquote # rest') = None" .
    have "length (h' @ v' @ dquote # rest') \<le> len" using le0 unfolding r0 by simp
    from tail_ok [OF n this that(3,4)] show False .
  qed
  have any: "?K ?r0 \<noteq> None"
    if "s = t' @ h' @ v' @ dquote # rest'" "filler t'" \<open>ieq h' ''href="''\<close> "dquote \<notin> set v'"
    for t' h' v' rest'
  proof
    assume n: "?K ?r0 = None"
    then have g: "rmatch len href_gap None ?r0 ?K2 = None" and t: "?K2 None ?r0 = None"
      unfolding K by (simp_all split: option.splits)
    show False
    proof (cases "blank t'")
      case True
      from cand_blank(2) [OF that(1) True that(3)]
      have e: "?r0 = h' @ v' @ dquote # rest'" .
      from t le0 have "?K2 None (h' @ v' @ dquote # rest') = None"
        "length (h' @ v' @ dquote # rest') \<le> len" unfolding e by simp_all
      from tail_ok [OF this that(3,4)] show False .
    next
      case False
      from nonblank [OF that False g] show False .
    qed
  qed
  have top: "c # u = ?w \<and> r1 = ?r0"
    if "s = t' @ h' @ v' @ dquote # rest'" "filler t'" \<open>ieq h' ''href="''\<close> "dquote \<notin> set v'"
    for t' h' v' rest'
  proof -
    have tw: "?w = (c # u) @ takeWhile isspace r1" unfolding s1 using cu
      by (simp add: takeWhile_append2)
    have dw: "?r0 = dropWhile isspace r1" unfolding s1 using cu
      by (simp add: dropWhile_append2)
    have tn: "takeWhile isspace r1 = []"
    proof (rule ccontr)
      assume ne: "takeWhile isspace r1 \<noteq> []"
      let ?u' = "u @ takeWhile isspace r1"
      have "cs = ?u' @ dropWhile isspace r1" using cs by simp
      moreover have "\<forall>c\<in>set ?u'. isspace c" using u by (auto dest: set_takeWhileD)
      moreover have "length u < length ?u'" using ne by simp
      ultimately have "?K (dropWhile isspace r1) = None" using longer by blast
      with any [OF that] dw show False by simp
    qed
    have "takeWhile isspace r1 @ dropWhile isspace r1 = r1" by (rule takeWhile_dropWhile_id)
    then have "dropWhile isspace r1 = r1" unfolding tn by simp
    with tw dw tn show ?thesis by simp
  qed
  show ?thesis
  proof (cases "rmatch len href_gap None r1 ?K2")
    case None
    with k1 have "?K2 None r1 = Some x" unfolding K by simp
    from href_tail_Some [OF this le1] obtain h v rest where
      r1: "r1 = h @ v @ dquote # rest" and h: \<open>ieq h ''href="''\<close> and v: "dquote \<notin> set v"
      and kx: "k (Some v) rest = Some x" by blast
    have st: "s = (c # u) @ h @ v @ dquote # rest" using s1 r1 by simp
    have f: "filler (c # u)" unfolding filler_iff using cu by (intro disjI1) simp
    from top [OF st f h v] have r0: "r1 = ?r0" by simp
    from None have g0: "rmatch len href_gap None ?r0 ?K2 = None" unfolding r0 .
    have pr: \<open>\<forall>t' h' v' rest'. s = t' @ h' @ v' @ dquote # rest' \<and> filler t' \<and>
                ieq h' ''href="'' \<and> dquote \<notin> set v' \<longrightarrow>
              (if blank (c # u) then blank t' else blank t' \<or> length (c # u) \<le> length t')\<close>
    proof (intro allI impI)
      fix t' h' v' rest'
      assume a: \<open>s = t' @ h' @ v' @ dquote # rest' \<and> filler t' \<and>
                ieq h' ''href="'' \<and> dquote \<notin> set v'\<close>
      then have a1: "s = t' @ h' @ v' @ dquote # rest'" and a2: "filler t'"
        and a3: \<open>ieq h' ''href="''\<close> and a4: "dquote \<notin> set v'" by simp_all
      have "blank t'"
      proof (rule ccontr)
        assume "\<not> blank t'"
        from nonblank [OF a1 a2 a3 a4 this g0] show False .
      qed
      with bcu show "if blank (c # u) then blank t' else blank t' \<or> length (c # u) \<le> length t'"
        by simp
    qed
    show ?thesis
      by (intro exI [of _ "c # u"] exI [of _ h] exI [of _ v] exI [of _ rest] conjI
          st f h v kx pr)
  next
    case (Some x')
    with k1 have "rmatch len href_gap None r1 ?K2 = Some x" unfolding K by simp
    from href_gap_first [OF this le1] obtain y w2 r2 where r1: "r1 = y @ w2 @ r2"
      and y: "\<forall>c\<in>set y. c \<noteq> CHR ''>''" and w2: "w2 \<noteq> []" "\<forall>c\<in>set w2. isspace c"
      and k2: "?K2 None r2 = Some x"
      and shorter: "\<forall>y' w' r'. r1 = y' @ w' @ r' \<and> length y' < length y \<and> w' \<noteq> [] \<and>
               (\<forall>c\<in>set w'. isspace c) \<longrightarrow> ?K2 None r' = None" by auto
    have "length r2 \<le> len" using le1 r1 by simp
    from href_tail_Some [OF k2 this] obtain h v rest where
      r2: "r2 = h @ v @ dquote # rest" and h: \<open>ieq h ''href="''\<close> and v: "dquote \<notin> set v"
      and kx: "k (Some v) rest = Some x" by blast
    let ?t = "(c # u) @ y @ w2"
    have st: "s = ?t @ h @ v @ dquote # rest" using s1 r1 r2 by simp
    have "\<exists>w1' x' w2'. ?t = w1' @ x' @ w2' \<and> w1' \<noteq> [] \<and> (\<forall>c\<in>set w1'. isspace c) \<and>
        (\<forall>c\<in>set x'. c \<noteq> CHR ''>'') \<and> w2' \<noteq> [] \<and> (\<forall>c\<in>set w2'. isspace c)"
      using cu y w2 by (intro exI [of _ "c # u"] exI [of _ y] exI [of _ w2]) simp
    then have f: "filler ?t" unfolding filler_iff ..
    from top [OF st f h v] have r0: "r1 = ?r0" and w: "c # u = ?w" by simp_all
    have r1ne: "r1 \<noteq> []" using r1 w2(1) by simp
    then have "?r0 \<noteq> []" unfolding r0 [symmetric] .
    then have "\<not> isspace (hd ?r0)" by (rule hd_dropWhile)
    then have hr1: "\<not> isspace (hd r1)" unfolding r0 [symmetric] .
    have yne: "y \<noteq> []"
    proof
      assume "y = []"
      with r1 w2(1) have "hd r1 = hd w2" by simp
      moreover have "hd w2 \<in> set w2" using w2(1) by (rule hd_in_set)
      ultimately show False using w2(2) hr1 by simp
    qed
    have "hd r1 = hd y" using yne r1 by simp
    with hr1 have "\<not> isspace (hd y)" by simp
    moreover have "hd y \<in> set ?t" using yne by simp
    ultimately have nb: "\<not> blank ?t" unfolding blank_def by blast
    have lt0: "length ?t = length (c # u) + (length y + length w2)" by simp
    have pr: \<open>\<forall>t' h' v' rest'. s = t' @ h' @ v' @ dquote # rest' \<and> filler t' \<and>
                ieq h' ''href="'' \<and> dquote \<notin> set v' \<longrightarrow>
              (if blank ?t then blank t' else blank t' \<or> length ?t \<le> length t')\<close>
    proof (intro allI impI)
      fix t' h' v' rest'
      assume a: \<open>s = t' @ h' @ v' @ dquote # rest' \<and> filler t' \<and>
                ieq h' ''href="'' \<and> dquote \<notin> set v'\<close>
      then have a1: "s = t' @ h' @ v' @ dquote # rest'" and a2: "filler t'"
        and a3: \<open>ieq h' ''href="''\<close> and a4: "dquote \<notin> set v'" by simp_all
      have "blank t' \<or> length ?t \<le> length t'"
      proof (rule ccontr)
        assume "\<not> (blank t' \<or> length ?t \<le> length t')"
        then have nb': "\<not> blank t'" and lt: "length t' < length ?t" by simp_all
        from cand_nonblank [OF a1 a2 nb'] obtain y' l' where
          t': "t' = ?w @ y' @ [l']" and r0': "?r0 = y' @ l' # (h' @ v' @ dquote # rest')"
          and l': "isspace l'" by blast
        have "length t' = length (c # u) + (length y' + 1)" unfolding w by (subst t') simp
        with lt lt0 have lt': "length y' + 1 < length y + length w2" by linarith
        have le': "length (h' @ v' @ dquote # rest') \<le> len" using le0 unfolding r0' by simp
        show False
        proof (cases "length y' < length y")
          case True
          have "r1 = y' @ [l'] @ (h' @ v' @ dquote # rest')" unfolding r0 r0' by simp
          with True l' have "r1 = y' @ [l'] @ (h' @ v' @ dquote # rest') \<and>
             length y' < length y \<and> [l'] \<noteq> [] \<and> (\<forall>c\<in>set [l']. isspace c)" by simp
          with shorter have n: "?K2 None (h' @ v' @ dquote # rest') = None" by blast
          from tail_ok [OF n le' a3 a4] show False .
        next
          case False
          from ieq_href_hd [OF a3] obtain c' h'' where h': "h' = c' # h''" "\<not> isspace c'"
            by blast
          let ?i = "length y' + 1"
          have i: "\<not> ?i < length y" "?i - length y < length w2" using False lt' by linarith+
          have "r1 ! ?i = w2 ! (?i - length y)" using i
            by (subst r1) (simp add: nth_append)
          moreover have "w2 ! (?i - length y) \<in> set w2" using i(2) by (rule nth_mem)
          ultimately have "isspace (r1 ! ?i)" using w2(2) by simp
          moreover have "r1 ! ?i = c'" unfolding r0 r0' h' by (simp add: nth_append)
          ultimately show False using h'(2) by simp
        qed
      qed
      with nb show "if blank ?t then blank t' else blank t' \<or> length ?t \<le> length t'" by simp
    qed
    show ?thesis
      by (intro exI [of _ ?t] exI [of _ h] exI [of _ v] exI [of _ rest] conjI
          st f h v kx pr)
  qed
qed

section \<open>Link extractor: one list of values for each document\<close>

lemma first_split_unique:
  "x \<notin> set xs \<Longrightarrow> x \<notin> set xs' \<Longrightarrow> xs @ x # ys = xs' @ x # ys' \<Longrightarrow> xs = xs'"
proof (induction xs arbitrary: xs')
  case Nil
  then show ?case by (cases xs') auto
next
  case (Cons a xs)
  then show ?case by (cases xs') auto
qed

lemma begins_rest:
  assumes "begins s t m v"
  shows \<open>\<exists>h rest. drop 2 s = t @ h @ v @ dquote # rest \<and> filler t \<and> ieq h ''href="'' \<and>
           dquote \<notin> set v \<and> length m = 2 + length t + 6 + length v + 1 \<and> s = m @ rest\<close>
proof -
  from assms obtain a h rest where m: "m = a @ t @ h @ v @ [dquote]" and a: "ieq a ''<a''"
    and f: "filler t" and h: \<open>ieq h ''href="''\<close> and v: "dquote \<notin> set v" and s: "s = m @ rest"
    unfolding begins_def tag_with_def by blast
  from a have la: "length a = 2" by (auto dest: ieq_length)
  from h have lh: "length h = 6" by (auto dest: ieq_length)
  have "s = a @ (t @ h @ v @ dquote # rest)" unfolding s m by simp
  with la have "drop 2 s = t @ h @ v @ dquote # rest" by simp
  moreover have "length m = 2 + length t + 6 + length v + 1" unfolding m using la lh by simp
  ultimately show ?thesis using f h v s by blast
qed

lemma begins_length:
  assumes "begins s t m v" "begins s t' m' v'" "length t = length t'"
  shows "m = m' \<and> v = v'"
proof -
  from begins_rest [OF assms(1)] obtain h rest where
    1: "drop 2 s = t @ h @ v @ dquote # rest" \<open>ieq h ''href="''\<close> "dquote \<notin> set v"
    "length m = 2 + length t + 6 + length v + 1" "s = m @ rest" by blast
  from begins_rest [OF assms(2)] obtain h' rest' where
    2: "drop 2 s = t' @ h' @ v' @ dquote # rest'" \<open>ieq h' ''href="''\<close> "dquote \<notin> set v'"
    "length m' = 2 + length t' + 6 + length v' + 1" "s = m' @ rest'" by blast
  have lh: "length h = length h'" using ieq_length [OF 1(2)] ieq_length [OF 2(2)] by simp
  from 1(1) 2(1) have "t @ h @ v @ dquote # rest = t' @ h' @ v' @ dquote # rest'" by simp
  with assms(3) have "h @ v @ dquote # rest = h' @ v' @ dquote # rest'" by simp
  with lh have "v @ dquote # rest = v' @ dquote # rest'" by simp
  with 1(3) 2(3) have v: "v = v'" by (rule first_split_unique)
  with 1(4) 2(4) assms(3) have "length m = length m'" by simp
  with 1(5) 2(5) have "m = m'" by (metis append_eq_append_conv)
  with v show ?thesis by simp
qed

lemma begins_blank:
  assumes "begins s t m v" "blank t"
  shows "t = takeWhile isspace (drop 2 s)"
proof -
  from begins_rest [OF assms(1)] obtain h rest where
    "drop 2 s = t @ h @ v @ dquote # rest" \<open>ieq h ''href="''\<close> by blast
  from cand_blank(1) [OF this(1) assms(2) this(2)] show ?thesis .
qed

lemma taken_unique:
  assumes "taken s m v" "taken s m' v'"
  shows "m = m' \<and> v = v'"
proof -
  from assms(1) obtain t where b: "begins s t m v"
    and p: "\<And>t' m' v'. begins s t' m' v' \<Longrightarrow>
              (if blank t then blank t' else blank t' \<or> length t \<le> length t')"
    unfolding taken_def by blast
  from assms(2) obtain t' where b': "begins s t' m' v'"
    and p': "\<And>t m v. begins s t m v \<Longrightarrow>
              (if blank t' then blank t else blank t \<or> length t' \<le> length t)"
    unfolding taken_def by blast
  have "length t = length t'"
  proof (cases "blank t")
    case True
    with p [OF b'] have "blank t'" by simp
    from begins_blank [OF b True] begins_blank [OF b' this] show ?thesis by simp
  next
    case False
    with p' [OF b] have nb: "\<not> blank t'" by (auto split: if_splits)
    from p [OF b'] False nb have "length t \<le> length t'" by simp
    moreover from p' [OF b] False nb have "length t' \<le> length t" by simp
    ultimately show ?thesis by simp
  qed
  from begins_length [OF b b' this] show ?thesis .
qed

lemma taken_occurs:
  assumes "html = pre @ m @ post" "taken (m @ post) m v"
  shows "occurs_at html (length pre)"
proof -
  from assms(2) have "anchor_href m v" unfolding taken_def begins_def anchor_href_def by blast
  moreover have "drop (length pre) html = m @ post" unfolding assms(1) by simp
  ultimately show ?thesis unfolding occurs_at_def by blast
qed

lemma links_of_unique: "links_of html vs \<Longrightarrow> links_of html vs' \<Longrightarrow> vs = vs'"
proof (induction arbitrary: vs' rule: links_of.induct)
  case (none html)
  from none.prems show ?case
  proof (cases rule: links_of.cases)
    case none
    then show ?thesis by simp
  next
    case (step pre m post v vs)
    from taken_occurs [OF step(2,3)] none.hyps show ?thesis by blast
  qed
next
  case (step html pre m post v vs)
  from taken_occurs [OF step.hyps(1,2)] have o: "occurs_at html (length pre)" .
  from step.prems show ?case
  proof (cases rule: links_of.cases)
    case none
    with o show ?thesis by blast
  next
    case (step pre' m' post' v' ws)
    from taken_occurs [OF step(2,3)] have o': "occurs_at html (length pre')" .
    from o step(4) have "\<not> length pre < length pre'" by blast
    moreover from o' step.hyps(3) have "\<not> length pre' < length pre" by blast
    ultimately have l: "length pre = length pre'" by simp
    from step.hyps(1) step(2) have "pre @ m @ post = pre' @ m' @ post'" by simp
    with l have e: "m @ post = m' @ post'" by simp
    from step(3) have "taken (m @ post) m' v'" unfolding e .
    from taken_unique [OF step.hyps(2) this] have mv: "m = m'" "v = v'" by simp_all
    with e have "post = post'" by simp
    with step(5) have "links_of post ws" by simp
    from step.IH [OF this] mv(2) step(1) show ?thesis by simp
  qed
qed

lemma match_at_href:
  assumes "match_at False len href_regex s = Some (n, g)" "length s \<le> len"
  shows "\<exists>v. g = Some v \<and> taken s (take n s) v \<and> 0 < n \<and> n \<le> length s"
proof -
  let ?k = "\<lambda>g (s'::string). Some (length s - length s', g)"
  let ?R = "Seq (plusG isspace) (Seq (Opt href_gap) href_tail)"
  have e: "match_at False len href_regex s =
      (if length ''<a'' \<le> length s \<and> ieq (take (length ''<a'') s) ''<a''
       then rmatch len ?R None (drop (length ''<a'') s) ?k else None)"
    unfolding match_at_def href_regex_eq rmatch_litis by (simp del: rmatch.simps)
  from assms(1) have a: "2 \<le> length s" "ieq (take 2 s) ''<a''"
    and r: "rmatch len ?R None (drop 2 s) ?k = Some (n, g)"
    unfolding e by (simp_all add: numeral_2_eq_2 del: rmatch.simps split: if_splits)
  have "length (drop 2 s) \<le> len" using assms(2) by simp
  from href_rest_first [OF r this] obtain t h v rest where
    d: "drop 2 s = t @ h @ v @ dquote # rest" and f: "filler t" and h: \<open>ieq h ''href="''\<close>
    and v: "dquote \<notin> set v" and k: "?k (Some v) rest = Some (n, g)"
    and pr: \<open>\<forall>t' h' v' rest'. drop 2 s = t' @ h' @ v' @ dquote # rest' \<and> filler t' \<and>
                ieq h' ''href="'' \<and> dquote \<notin> set v' \<longrightarrow>
              (if blank t then blank t' else blank t' \<or> length t \<le> length t')\<close>
    by auto
  define a' where "a' = take 2 s"
  let ?m = "a' @ t @ h @ v @ [dquote]"
  have "take 2 s @ drop 2 s = s" by (rule append_take_drop_id)
  then have s: "s = ?m @ rest" unfolding d a'_def by simp
  from k have n: "n = length s - length rest" and g: "g = Some v" by simp_all
  have ln: "n = length ?m" unfolding n by (subst s) simp
  have tk: "take n s = ?m" unfolding ln by (subst s) simp
  have "tag_with t ?m v" unfolding tag_with_def using a(2) f h v a'_def by blast
  with s have b: "begins s t ?m v" unfolding begins_def by blast
  have "\<forall>t' m' v'. begins s t' m' v' \<longrightarrow>
          (if blank t then blank t' else blank t' \<or> length t \<le> length t')"
  proof (intro allI impI)
    fix t' m' v'
    assume "begins s t' m' v'"
    from begins_rest [OF this] obtain h' rest' where
      \<open>drop 2 s = t' @ h' @ v' @ dquote # rest' \<and> filler t' \<and> ieq h' ''href="'' \<and>
       dquote \<notin> set v'\<close> by auto
    with pr show "if blank t then blank t' else blank t' \<or> length t \<le> length t'" by blast
  qed
  with b have "taken s ?m v" unfolding taken_def by blast
  moreover have "0 < n" unfolding ln by simp
  moreover have "n \<le> length s" unfolding n by simp
  ultimately show ?thesis using g tk by simp
qed

lemma search_from_match:
  "search_from len r s = Some (p, n, g) \<Longrightarrow> match_at False len r (drop p s) = Some (n, g)"
  by (induction s arbitrary: p) (auto split: option.splits)

section \<open>Link extractor: what is returned\<close>

lemma href_search_taken:
  assumes "search_from len href_regex s = Some (p, n, g)" "length s \<le> len"
  shows "\<exists>v. g = Some v \<and> taken (drop p s) (take n (drop p s)) v"
proof -
  from search_from_match [OF assms(1)]
  have "match_at False len href_regex (drop p s) = Some (n, g)" .
  moreover have "length (drop p s) \<le> len" using assms(2) by simp
  ultimately show ?thesis using match_at_href by blast
qed

lemma links_of_iter:
  "length s \<le> len \<Longrightarrow>
   links_of s (map (\<lambda>(m, g). group_str g) (regex_iter len href_regex False s))"
proof (induction "length s" arbitrary: s rule: less_induct)
  case less
  show ?case
  proof (cases "search_from len href_regex s")
    case None
    then have "regex_iter len href_regex False s = []"
      by (simp add: regex_iter.simps [of len href_regex False s])
    moreover have "\<forall>q. \<not> occurs_at s q" using href_search_None [OF None less.prems] by blast
    ultimately show ?thesis by (simp add: links_of.none)
  next
    case (Some x)
    then obtain p n g where x: "search_from len href_regex s = Some (p, n, g)"
      by (cases x) auto
    note h = href_search_Some [OF x less.prems]
    from href_search_taken [OF x less.prems] obtain v where g: "g = Some v"
      and a: "taken (drop p s) (take n (drop p s)) v" by blast
    let ?post = "drop (p + n) s"
    have it: "regex_iter len href_regex False s =
              (take n (drop p s), g) # regex_iter len href_regex False ?post"
      using x h(3) by (simp add: regex_iter.simps [of len href_regex False s])
    have "length ?post < length s" using h(2,3) by simp
    moreover have "length ?post \<le> len" using less.prems by simp
    ultimately have ih: "links_of ?post
        (map (\<lambda>(m, g). group_str g) (regex_iter len href_regex False ?post))"
      by (rule less.hyps)
    have s: "s = take p s @ take n (drop p s) @ ?post"
      by (metis append_take_drop_id drop_drop add.commute)
    have "take n (drop p s) @ ?post = drop p s"
      by (metis append_take_drop_id drop_drop add.commute)
    with a have a': "taken (take n (drop p s) @ ?post) (take n (drop p s)) v" by simp
    have "length (take p s) = p" using h(2) by simp
    with h(4) have no: "\<forall>q<length (take p s). \<not> occurs_at s q" by simp
    have gs: "group_str (Some v) = v" by (simp add: group_str_def)
    from links_of.step [OF s a' no ih] show ?thesis unfolding it g by (simp add: gs)
  qed
qed

lemma extractLinks_Nil_iff: "extractLinks html = [] \<longleftrightarrow> (\<forall>p. \<not> occurs_at html p)"
proof (cases "search_from (length html) href_regex html")
  case None
  then have "extractLinks html = []"
    by (simp add: extractLinks_def regex_iter.simps [of _ href_regex False html])
  moreover have "\<forall>q. \<not> occurs_at html q" using href_search_None [OF None] by blast
  ultimately show ?thesis by simp
next
  case (Some x)
  then obtain p n g where x: "search_from (length html) href_regex html = Some (p, n, g)"
    by (cases x) auto
  note h = href_search_Some [OF x order_refl]
  from h(1) obtain v where a: "anchor_href (take n (drop p html)) v" by blast
  have "drop p html = take n (drop p html) @ drop n (drop p html)"
    by (rule append_take_drop_id [symmetric])
  with a have "occurs_at html p" unfolding occurs_at_def by blast
  moreover have "extractLinks html \<noteq> []"
    using x by (simp add: extractLinks_def regex_iter.simps [of _ href_regex False html])
  ultimately show ?thesis by blast
qed

text \<open>
  C8 (as amended). \<open>extractLinks html\<close> is the one list \<open>vs\<close> with \<open>links_of html vs\<close>: when no
  text of the form \<^verbatim>\<open><a\<close>, filler, \<^verbatim>\<open>href="VALUE"\<close> begins anywhere in the document the
  result is empty, and otherwise it is the \<open>VALUE\<close> of the text taken at the leftmost offset
  where one begins, followed by the values of the rest of the document after that text's
  closing quote. So the values come in document order, duplicates included, each as it
  stands in the document. \<^verbatim>\<open><a\<close> and \<^verbatim>\<open>href="\<close> are read in any mix of upper and lower
  case; the filler is white space, or white space, any text without \<^verbatim>\<open>>\<close> and white space,
  so attributes before \<^verbatim>\<open>href\<close> are passed over only when they hold no \<^verbatim>\<open>>\<close> and white
  space stands right before \<^verbatim>\<open>href\<close>; \<open>VALUE\<close> is the text up to the next double quote.
  Where one \<^verbatim>\<open><a\<close> reaches several \<^verbatim>\<open>href="\<close>, the text taken is the shortest one with
  attribute text before \<^verbatim>\<open>href\<close>, and the one where \<^verbatim>\<open>href\<close> follows the white space after
  \<^verbatim>\<open><a\<close> only when there is no other (\<open>taken\<close>). The second conjunct says when the result
  is empty, the last one is the example of the specification.

  The matcher of this theory is total. The stack that the library's executor needs on a
  long input is not part of the model.
\<close>

theorem extractLinks_spec:
  \<open>(links_of html vs \<longleftrightarrow> vs = extractLinks html) \<and>
   (extractLinks html = [] \<longleftrightarrow> (\<forall>p. \<not> occurs_at html p)) \<and>
   extractLinks ''<a href="x/">X</a><a class="y" href="z.txt">Z</a>'' = [''x/'', ''z.txt'']\<close>
proof (intro conjI)
  have l: "links_of html (extractLinks html)"
    unfolding extractLinks_def by (rule links_of_iter) simp
  show "links_of html vs \<longleftrightarrow> vs = extractLinks html"
  proof
    assume "links_of html vs"
    then show "vs = extractLinks html" using l by (rule links_of_unique)
  next
    assume "vs = extractLinks html"
    with l show "links_of html vs" by simp
  qed
  show "extractLinks html = [] \<longleftrightarrow> (\<forall>p. \<not> occurs_at html p)"
    by (rule extractLinks_Nil_iff)
  show \<open>extractLinks ''<a href="x/">X</a><a class="y" href="z.txt">Z</a>'' = [''x/'', ''z.txt'']\<close>
    by code_simp
qed

theorem extractLinks_spec_witness:
  \<open>links_of ''<a href="x/">X</a><a class="y" href="z.txt">Z</a>'' [''x/'', ''z.txt''] \<and>
   \<not> links_of ''<a href="x/">X</a><a class="y" href="z.txt">Z</a>'' [''x/''] \<and>
   (\<exists>p. occurs_at ''<a href="x/">X</a><a class="y" href="z.txt">Z</a>'' p) \<and>
   links_of ''<a href="1" href="2">'' [''2''] \<and>
   \<not> links_of ''<a href="1" href="2">'' [''1''] \<and>
   links_of ''<A HREF="x" href="x"><a id=i href="x">'' [''x'', ''x''] \<and>
   extractLinks ''no anchor here'' = [] \<and> (\<forall>p. \<not> occurs_at ''no anchor here'' p)\<close>
proof -
  let ?h = \<open>''<a href="x/">X</a><a class="y" href="z.txt">Z</a>''\<close>
  let ?d = \<open>''<a href="1" href="2">''\<close>
  let ?c = \<open>''<A HREF="x" href="x"><a id=i href="x">''\<close>
  note t = extractLinks_spec [of ?h]
  from t have e: "extractLinks ?h = [''x/'', ''z.txt'']" by (rule conjunct2 [THEN conjunct2])
  have l: "links_of ?h [''x/'', ''z.txt'']"
    using extractLinks_spec [of ?h "[''x/'', ''z.txt'']", THEN conjunct1] e by simp
  have l': "\<not> links_of ?h [''x/'']"
    using extractLinks_spec [of ?h "[''x/'']", THEN conjunct1] e by simp
  from t have "extractLinks ?h = [] \<longleftrightarrow> (\<forall>p. \<not> occurs_at ?h p)"
    by (rule conjunct2 [THEN conjunct1])
  then have o: "\<exists>p. occurs_at ?h p" unfolding e by simp
  have d: "extractLinks ?d = [''2'']" by code_simp
  have d2: "links_of ?d [''2'']"
    using extractLinks_spec [of ?d "[''2'']", THEN conjunct1] d by simp
  have d1: "\<not> links_of ?d [''1'']"
    using extractLinks_spec [of ?d "[''1'']", THEN conjunct1] d by simp
  have c: "extractLinks ?c = [''x'', ''x'']" by code_simp
  have c2: "links_of ?c [''x'', ''x'']"
    using extractLinks_spec [of ?c "[''x'', ''x'']", THEN conjunct1] c by simp
  have n: "extractLinks ''no anchor here'' = []" by code_simp
  have "extractLinks ''no anchor here'' = [] \<longleftrightarrow> (\<forall>p. \<not> occurs_at ''no anchor here'' p)"
    using extractLinks_spec [of "''no anchor here''"] by (rule conjunct2 [THEN conjunct1])
  with n have "\<forall>p. \<not> occurs_at ''no anchor here'' p" by simp
  with l l' o d2 d1 c2 n show ?thesis by simp
qed

text \<open>
  C8 as stated fails. The three documents below hold an anchor tag of the form
  \<^verbatim>\<open><a ...href="VALUE"...>\<close> (\<open>anchor_tag\<close>). In the first an attribute before \<^verbatim>\<open>href\<close> has a
  \<^verbatim>\<open>>\<close> in its value, in the second no white space stands before \<^verbatim>\<open>href\<close>: the value is
  not returned. In the third the tag has two \<^verbatim>\<open>href\<close> attributes and the value of the
  first one is not returned.
\<close>

theorem extractLinks_counterexample:
  \<open>extractLinks (anchor_tag '' title="a>b" '' ''x'' [] @ ''T</a>'') = [] \<and>
   extractLinks (anchor_tag '' class="y"'' ''z'' [] @ ''Z</a>'') = [] \<and>
   extractLinks (anchor_tag '' '' ''1'' '' href="2"'') = [''2'']\<close>
  by code_simp

end
